theory Spec2Isabelle
  imports Main "HOL-Library.AList" "HOL-Library.Code_Target_Nat"
begin

section \<open>Text and values of the runtime\<close>

text \<open>
  The component under study is \<^verbatim>\<open>src/features/modals/NodeModal/index.tsx\<close>.
  It manipulates the values that \<^verbatim>\<open>JSON.parse\<close> yields, reads and writes their
  properties by path, and turns them back into text.

  A string of the runtime is a sequence of UTF-16 code units; a code unit is a \<open>nat\<close>
  here, so that every escape of four hexadecimal digits has a value. \<open>lit\<close> turns a literal
  of the theory into such a string.
\<close>

type_synonym jstring = "nat list"

abbreviation lit :: "string \<Rightarrow> jstring" where
  "lit cs \<equiv> map of_char cs"

text \<open>
  A value is what a variable of type \<^verbatim>\<open>any\<close> holds in this component: \<^verbatim>\<open>undefined\<close>,
  \<^verbatim>\<open>null\<close>, a boolean, a number, a string, an array or a plain object.
  \<^item> A number \<open>JNum m e\<close> is the decimal \<open>m * 10 ^ e\<close>, kept exactly: the rounding of
    the engine to an IEEE double is not modelled.
  \<^item> An array carries its elements (a hole is \<open>JUndef\<close>) and the named properties
    that an assignment such as \<^verbatim>\<open>arr.details = x\<close> adds to it.
  \<^item> An object is the list of its own properties in insertion order.

  Two more kinds of value arise where a path holds the key \<^verbatim>\<open>__proto__\<close>.
  \<^item> \<open>JProto p\<close> is a prototype object of the engine, \<^verbatim>\<open>Object.prototype\<close> for one,
    which a read of \<^verbatim>\<open>__proto__\<close> yields.
  \<^item> \<open>JWithProto b p\<close> is the array or object \<open>b\<close> once an assignment to its
    \<^verbatim>\<open>__proto__\<close> has made \<open>p\<close>, an object or \<^verbatim>\<open>null\<close>, its prototype.

  Values are trees: the component never builds a cyclic one. Of what a value has
  without owning it as a property, the model has the accessor \<^verbatim>\<open>__proto__\<close> of
  \<^verbatim>\<open>Object.prototype\<close> and the \<^verbatim>\<open>length\<close> of arrays and strings. The methods that the
  prototypes of the engine hold (\<^verbatim>\<open>toString\<close>, \<^verbatim>\<open>slice\<close>, ...) are not values of the
  model: a read of one yields \<^verbatim>\<open>undefined\<close> here, a write to a prototype object of the
  engine is not recorded, and the calls that the component makes (\<^verbatim>\<open>slice\<close>,
  \<^verbatim>\<open>String\<close>, \<^verbatim>\<open>JSON.stringify\<close>) are those of the engine whatever a value owns. The
  engine's reordering of integer-like keys of an object is not modelled either.
\<close>

datatype proto =
  ObjectPrototype | ArrayPrototype | StringPrototype | NumberPrototype | BooleanPrototype

datatype jv =
    JUndef
  | JNull
  | JBool bool
  | JNum int int
  | JStr jstring
  | JArr "jv list" "(jstring \<times> jv) list"
  | JObj "(jstring \<times> jv) list"
  | JProto proto
  | JWithProto jv jv

datatype error = TypeError | SyntaxError | NotAString | RangeError

fun nullish :: "jv \<Rightarrow> bool" where
  "nullish JUndef = True"
| "nullish JNull = True"
| "nullish _ = False"

text \<open>An array or object of a document.\<close>

fun is_container :: "jv \<Rightarrow> bool" where
  "is_container (JArr xs ps) = True"
| "is_container (JObj ps) = True"
| "is_container (JWithProto b p) = True"
| "is_container _ = False"

text \<open>A value that is an object to the engine, a prototype object included.\<close>

fun is_object :: "jv \<Rightarrow> bool" where
  "is_object (JArr xs ps) = True"
| "is_object (JObj ps) = True"
| "is_object (JProto p) = True"
| "is_object (JWithProto b p) = True"
| "is_object _ = False"

subsection \<open>Decimal digits\<close>

definition is_digit :: "nat \<Rightarrow> bool" where
  "is_digit c = (48 \<le> c \<and> c \<le> 57)"

fun show_nat :: "nat \<Rightarrow> jstring" where
  "show_nat n = (if n < 10 then [48 + n] else show_nat (n div 10) @ [48 + n mod 10])"

declare show_nat.simps [simp del]

definition digits_val :: "jstring \<Rightarrow> nat" where
  "digits_val ds = foldl (\<lambda>a c. 10 * a + (c - 48)) 0 ds"

section \<open>Numbers and strings as text\<close>

text \<open>
  \<open>dec_canon\<close> gives the one pair that stands for a decimal: an integer has exponent
  \<open>0\<close>, any other number a negative exponent and a mantissa that does not end in \<open>0\<close>.
\<close>

fun strip_zeros :: "int \<Rightarrow> nat \<Rightarrow> int \<times> int" where
  "strip_zeros m 0 = (m, 0)"
| "strip_zeros m (Suc k) =
     (if m mod 10 = 0 then strip_zeros (m div 10) k else (m, - int (Suc k)))"

definition dec_canon :: "int \<Rightarrow> int \<Rightarrow> int \<times> int" where
  "dec_canon m e = (if 0 \<le> e then (m * 10 ^ nat e, 0) else strip_zeros m (nat (- e)))"

text \<open>
  \<^verbatim>\<open>Number.prototype.toString\<close>, in positional notation: the digits, with a decimal
  point when there is a fraction. (The engine switches to the exponent notation from
  \<open>10^21\<close> on and below \<open>10^-6\<close>; that notation is not modelled.)
\<close>

definition show_dec :: "int \<Rightarrow> nat \<Rightarrow> jstring" where
  "show_dec m k =
     (let ds = show_nat (nat \<bar>m\<bar>) in
      (if m < 0 then [45] else []) @
      (if k = 0 then ds
       else if k < length ds then take (length ds - k) ds @ [46] @ drop (length ds - k) ds
       else [48, 46] @ replicate (k - length ds) 48 @ ds))"

definition num_to_string :: "int \<Rightarrow> int \<Rightarrow> jstring" where
  "num_to_string m e = (case dec_canon m e of (m', e') \<Rightarrow> show_dec m' (nat (- e')))"

fun join :: "jstring \<Rightarrow> jstring list \<Rightarrow> jstring" where
  "join sep [] = []"
| "join sep [x] = x"
| "join sep (x # y # ys) = x @ sep @ join sep (y # ys)"

text \<open>
  \<^verbatim>\<open>String(value)\<close>, which a template literal applies: an array is its elements joined
  by commas (nothing for \<^verbatim>\<open>null\<close> and \<^verbatim>\<open>undefined\<close>), a plain object is
  \<^verbatim>\<open>[object Object]\<close>. A prototype object of the engine is an empty object, array or
  string, the number \<open>0\<close> or the boolean \<^verbatim>\<open>false\<close>.
\<close>

fun ToString :: "jv \<Rightarrow> jstring" where
  "ToString JUndef = lit ''undefined''"
| "ToString JNull = lit ''null''"
| "ToString (JBool b) = (if b then lit ''true'' else lit ''false'')"
| "ToString (JNum m e) = num_to_string m e"
| "ToString (JStr s) = s"
| "ToString (JArr xs ps) = join [44] (map (\<lambda>x. if nullish x then [] else ToString x) xs)"
| "ToString (JObj ps) = lit ''[object Object]''"
| "ToString (JProto p) =
     (case p of
        ObjectPrototype \<Rightarrow> lit ''[object Object]''
      | ArrayPrototype \<Rightarrow> []
      | StringPrototype \<Rightarrow> []
      | NumberPrototype \<Rightarrow> lit ''0''
      | BooleanPrototype \<Rightarrow> lit ''false'')"
| "ToString (JWithProto b p) = ToString b"

section \<open>JSON.stringify\<close>

definition hex_char :: "nat \<Rightarrow> nat" where
  "hex_char d = (if d < 10 then 48 + d else 87 + d)"

definition uesc :: "nat \<Rightarrow> jstring" where
  "uesc c = [92, 117, hex_char (c div 4096 mod 16), hex_char (c div 256 mod 16),
             hex_char (c div 16 mod 16), hex_char (c mod 16)]"

definition esc :: "nat \<Rightarrow> jstring" where
  "esc c =
     (if c = 8 then [92, 98] else if c = 9 then [92, 116] else if c = 10 then [92, 110]
      else if c = 12 then [92, 102] else if c = 13 then [92, 114]
      else if c = 34 then [92, 34] else if c = 92 then [92, 92]
      else if c < 32 then uesc c else [c])"

definition is_high :: "nat \<Rightarrow> bool" where
  "is_high c = (55296 \<le> c \<and> c \<le> 56319)"

definition is_low :: "nat \<Rightarrow> bool" where
  "is_low c = (56320 \<le> c \<and> c \<le> 57343)"

text \<open>
  The characters of a quoted string: a surrogate that has no partner is written as an
  escape, a pair is written as it is.
\<close>

fun quote_body :: "jstring \<Rightarrow> jstring" where
  "quote_body [] = []"
| "quote_body [c] = (if is_high c then uesc c else if is_low c then uesc c else esc c)"
| "quote_body (c # d # cs) =
     (if is_high c then
        (if is_low d then c # d # quote_body cs else uesc c @ quote_body (d # cs))
      else if is_low c then uesc c @ quote_body (d # cs)
      else esc c @ quote_body (d # cs))"

definition quote :: "jstring \<Rightarrow> jstring" where
  "quote s = [34] @ quote_body s @ [34]"

text \<open>
  The brackets around the parts of an array or object, for the gap \<open>g\<close> and the
  indentation \<open>ind\<close> of the enclosing value.
\<close>

definition wrap :: "nat \<Rightarrow> nat \<Rightarrow> jstring \<Rightarrow> jstring \<Rightarrow> jstring list \<Rightarrow> jstring" where
  "wrap opn cls g ind parts =
     (if parts = [] then [opn, cls]
      else if g = [] then [opn] @ join [44] parts @ [cls]
      else [opn, 10] @ ind @ g @ join ([44, 10] @ ind @ g) parts @ [10] @ ind @ [cls])"

text \<open>
  The text of a value. An element that is \<^verbatim>\<open>undefined\<close> is written \<^verbatim>\<open>null\<close>; a property
  whose value is \<^verbatim>\<open>undefined\<close> is left out, and so are the named properties of an array.
  Only own properties are written, whatever the prototype; a prototype object of the
  engine has none to write and is written as the empty object, array or string, the
  number \<open>0\<close> or the boolean \<^verbatim>\<open>false\<close> that it is.
\<close>

fun ser :: "jstring \<Rightarrow> jstring \<Rightarrow> jv \<Rightarrow> jstring"
  and ser_members :: "jstring \<Rightarrow> jstring \<Rightarrow> (jstring \<times> jv) list \<Rightarrow> jstring list"
  and ser_elems :: "jstring \<Rightarrow> jstring \<Rightarrow> jv list \<Rightarrow> jstring list"
where
  "ser g ind JUndef = lit ''null''"
| "ser g ind JNull = lit ''null''"
| "ser g ind (JBool b) = (if b then lit ''true'' else lit ''false'')"
| "ser g ind (JNum m e) = num_to_string m e"
| "ser g ind (JStr s) = quote s"
| "ser g ind (JArr xs ps) = wrap 91 93 g ind (ser_elems g (ind @ g) xs)"
| "ser g ind (JObj ps) = wrap 123 125 g ind (ser_members g (ind @ g) ps)"
| "ser g ind (JProto p) =
     (case p of
        ObjectPrototype \<Rightarrow> [123, 125]
      | ArrayPrototype \<Rightarrow> [91, 93]
      | StringPrototype \<Rightarrow> [34, 34]
      | NumberPrototype \<Rightarrow> [48]
      | BooleanPrototype \<Rightarrow> lit ''false'')"
| "ser g ind (JWithProto b p) = ser g ind b"
| "ser_members g ind [] = []"
| "ser_members g ind ((k, v) # ps) =
     (if v = JUndef then ser_members g ind ps
      else (quote k @ [58] @ (if g = [] then [] else [32]) @ ser g ind v) # ser_members g ind ps)"
| "ser_elems g ind [] = []"
| "ser_elems g ind (x # xs) = ser g ind x # ser_elems g ind xs"

text \<open>
  \<^verbatim>\<open>JSON.stringify(value, null, n)\<close>: the gap is \<open>n\<close> spaces, ten at most. The result
  is \<^verbatim>\<open>undefined\<close> (\<open>None\<close>) for the value \<^verbatim>\<open>undefined\<close>, a string otherwise.
  \<^verbatim>\<open>JSON.stringify(value)\<close> is the case \<open>n = 0\<close>.
\<close>

definition JSON_stringify :: "nat \<Rightarrow> jv \<Rightarrow> jstring option" where
  "JSON_stringify n v = (if v = JUndef then None else Some (ser (replicate (min n 10) 32) [] v))"

section \<open>JSON.parse\<close>

definition is_ws :: "nat \<Rightarrow> bool" where
  "is_ws c = (c = 32 \<or> c = 9 \<or> c = 10 \<or> c = 13)"

definition skip_ws :: "jstring \<Rightarrow> jstring" where
  "skip_ws s = dropWhile is_ws s"

definition hex_val :: "nat \<Rightarrow> nat option" where
  "hex_val c =
     (if 48 \<le> c \<and> c \<le> 57 then Some (c - 48)
      else if 97 \<le> c \<and> c \<le> 102 then Some (c - 87)
      else if 65 \<le> c \<and> c \<le> 70 then Some (c - 55)
      else None)"

definition hex4_val :: "nat \<Rightarrow> nat \<Rightarrow> nat \<Rightarrow> nat \<Rightarrow> nat option" where
  "hex4_val a b c d =
     (case hex_val a of None \<Rightarrow> None | Some x \<Rightarrow>
     (case hex_val b of None \<Rightarrow> None | Some y \<Rightarrow>
     (case hex_val c of None \<Rightarrow> None | Some z \<Rightarrow>
     (case hex_val d of None \<Rightarrow> None | Some w \<Rightarrow>
        Some (4096 * x + 256 * y + 16 * z + w)))))"

definition unescape :: "nat \<Rightarrow> nat option" where
  "unescape e =
     (if e = 34 then Some 34 else if e = 92 then Some 92 else if e = 47 then Some 47
      else if e = 98 then Some 8 else if e = 102 then Some 12 else if e = 110 then Some 10
      else if e = 114 then Some 13 else if e = 116 then Some 9 else None)"

definition push :: "nat \<Rightarrow> (jstring \<times> jstring) option \<Rightarrow> (jstring \<times> jstring) option" where
  "push u r = (case r of None \<Rightarrow> None | Some (t, rest) \<Rightarrow> Some (u # t, rest))"

text \<open>
  The characters of a string after its opening quote, up to the closing one: the
  string read and the text that follows it.
\<close>

fun parse_str :: "jstring \<Rightarrow> (jstring \<times> jstring) option" where
  "parse_str [] = None"
| "parse_str (c # cs) =
     (if c = 34 then Some ([], cs)
      else if c = 92 then
        (case cs of
           [] \<Rightarrow> None
         | e # r \<Rightarrow>
             if e = 117 then
               (case r of
                  a # b # c' # d # r' \<Rightarrow>
                    (case hex4_val a b c' d of
                       None \<Rightarrow> None
                     | Some u \<Rightarrow> push u (parse_str r'))
                | _ \<Rightarrow> None)
             else
               (case unescape e of
                  None \<Rightarrow> None
                | Some u \<Rightarrow> push u (parse_str r)))
      else if c < 32 then None
      else push c (parse_str cs))"

definition parse_frac :: "jstring \<Rightarrow> (jstring \<times> jstring) option" where
  "parse_frac s =
     (case s of
        [] \<Rightarrow> Some ([], s)
      | c # cs \<Rightarrow>
          if c = 46 then
            (if takeWhile is_digit cs = [] then None
             else Some (takeWhile is_digit cs, dropWhile is_digit cs))
          else Some ([], s))"

definition parse_exp_digits :: "int \<Rightarrow> jstring \<Rightarrow> (int \<times> jstring) option" where
  "parse_exp_digits sg s =
     (if takeWhile is_digit s = [] then None
      else Some (sg * int (digits_val (takeWhile is_digit s)), dropWhile is_digit s))"

definition parse_exp :: "jstring \<Rightarrow> (int \<times> jstring) option" where
  "parse_exp s =
     (case s of
        [] \<Rightarrow> Some (0, s)
      | c # cs \<Rightarrow>
          if c = 101 \<or> c = 69 then
            (case cs of
               [] \<Rightarrow> None
             | d # ds \<Rightarrow>
                 if d = 45 then parse_exp_digits (- 1) ds
                 else if d = 43 then parse_exp_digits 1 ds
                 else parse_exp_digits 1 cs)
          else Some (0, s))"

definition parse_unsigned :: "bool \<Rightarrow> jstring \<Rightarrow> (jv \<times> jstring) option" where
  "parse_unsigned neg s =
     (let ip = takeWhile is_digit s in
      if ip = [] then None
      else if hd ip = 48 \<and> 1 < length ip then None
      else
        (case parse_frac (dropWhile is_digit s) of
           None \<Rightarrow> None
         | Some (fp, s3) \<Rightarrow>
             (case parse_exp s3 of
                None \<Rightarrow> None
              | Some (x, s4) \<Rightarrow>
                  (case dec_canon ((if neg then - 1 else 1) * int (digits_val (ip @ fp)))
                          (x - int (length fp)) of
                     (m, e) \<Rightarrow> Some (JNum m e, s4)))))"

definition parse_number :: "jstring \<Rightarrow> (jv \<times> jstring) option" where
  "parse_number s =
     (case s of
        [] \<Rightarrow> None
      | c # cs \<Rightarrow> if c = 45 then parse_unsigned True cs else parse_unsigned False s)"

definition parse_word :: "jstring \<Rightarrow> jv \<Rightarrow> jstring \<Rightarrow> (jv \<times> jstring) option" where
  "parse_word w v s = (if take (length w) s = w then Some (v, drop (length w) s) else None)"

text \<open>
  A value, the elements of an array after the first has been seen to exist, and the
  members of an object likewise. Each function returns what it read and the text that
  follows. A repeated key keeps its first place and takes the last value. (The tests
  that the text has become shorter are there for the termination proof; they never
  fail, see \<open>parse_elems_unguarded\<close> and \<open>parse_members_unguarded\<close>.)
\<close>

function parse_value :: "jstring \<Rightarrow> (jv \<times> jstring) option"
  and parse_elems :: "jv list \<Rightarrow> jstring \<Rightarrow> (jv \<times> jstring) option"
  and parse_members :: "(jstring \<times> jv) list \<Rightarrow> jstring \<Rightarrow> (jv \<times> jstring) option"
where
  "parse_value s =
     (case skip_ws s of
        [] \<Rightarrow> None
      | c # cs \<Rightarrow>
          if c = 123 then
            (case skip_ws cs of
               [] \<Rightarrow> None
             | d # ds \<Rightarrow> if d = 125 then Some (JObj [], ds) else parse_members [] (d # ds))
          else if c = 91 then
            (case skip_ws cs of
               [] \<Rightarrow> None
             | d # ds \<Rightarrow> if d = 93 then Some (JArr [] [], ds) else parse_elems [] (d # ds))
          else if c = 34 then
            (case parse_str cs of None \<Rightarrow> None | Some (t, r) \<Rightarrow> Some (JStr t, r))
          else if c = 45 \<or> is_digit c then parse_number (c # cs)
          else if c = 116 then parse_word (lit ''true'') (JBool True) (c # cs)
          else if c = 102 then parse_word (lit ''false'') (JBool False) (c # cs)
          else if c = 110 then parse_word (lit ''null'') JNull (c # cs)
          else None)"
| "parse_elems acc s =
     (case parse_value s of
        None \<Rightarrow> None
      | Some (v, r) \<Rightarrow>
          (case skip_ws r of
             [] \<Rightarrow> None
           | c # cs \<Rightarrow>
               if c = 44 then
                 (if length cs < length s then parse_elems (acc @ [v]) cs else None)
               else if c = 93 then Some (JArr (acc @ [v]) [], cs)
               else None))"
| "parse_members acc s =
     (case skip_ws s of
        [] \<Rightarrow> None
      | q # s1 \<Rightarrow>
          if q = 34 then
            (case parse_str s1 of
               None \<Rightarrow> None
             | Some (k, s2) \<Rightarrow>
                 (case skip_ws s2 of
                    [] \<Rightarrow> None
                  | c # s3 \<Rightarrow>
                      if c = 58 \<and> length s3 < length s then
                        (case parse_value s3 of
                           None \<Rightarrow> None
                         | Some (v, r) \<Rightarrow>
                             (case skip_ws r of
                                [] \<Rightarrow> None
                              | d # ds \<Rightarrow>
                                  if d = 44 then
                                    (if length ds < length s
                                     then parse_members (AList.update k v acc) ds else None)
                                  else if d = 125 then Some (JObj (AList.update k v acc), ds)
                                  else None))
                      else None))
          else None)"
  by pat_completeness auto
termination
proof (relation "measure (\<lambda>x. case x of
                     Inl s \<Rightarrow> 3 * length s
                   | Inr (Inl (acc, s)) \<Rightarrow> 3 * length s + 1
                   | Inr (Inr (acc, s)) \<Rightarrow> 3 * length s + 1)", goal_cases)
  case 1
  show ?case by simp
next
  case (2 s c cs d ds)
  have "length (skip_ws s) \<le> length s" "length (skip_ws cs) \<le> length cs"
    by (simp_all add: skip_ws_def length_dropWhile_le)
  with 2 show ?case by simp
next
  case (3 s c cs d ds)
  have "length (skip_ws s) \<le> length s" "length (skip_ws cs) \<le> length cs"
    by (simp_all add: skip_ws_def length_dropWhile_le)
  with 3 show ?case by simp
qed simp_all

text \<open>
  \<^verbatim>\<open>JSON.parse(text)\<close>: one value, with nothing but white space after it; anything
  else throws a \<^verbatim>\<open>SyntaxError\<close>.
\<close>

definition JSON_parse :: "jstring \<Rightarrow> error + jv" where
  "JSON_parse s =
     (case parse_value s of
        None \<Rightarrow> Inl SyntaxError
      | Some (v, r) \<Rightarrow> if skip_ws r = [] then Inr v else Inl SyntaxError)"

subsection \<open>What JSON.parse makes of the text of a value\<close>

text \<open>
  \<open>jsonify v\<close> is the value that the text of \<open>v\<close> denotes: \<^verbatim>\<open>undefined\<close> in an array has
  become \<^verbatim>\<open>null\<close>, properties that are \<^verbatim>\<open>undefined\<close> and the named properties of arrays
  are gone, of two properties with one key the last value stands in the first place,
  and numbers are in canonical form.
\<close>

fun jsonify :: "jv \<Rightarrow> jv"
  and jsonify_members :: "(jstring \<times> jv) list \<Rightarrow> (jstring \<times> jv) list \<Rightarrow> (jstring \<times> jv) list"
  and jsonify_elems :: "jv list \<Rightarrow> jv list"
where
  "jsonify JUndef = JNull"
| "jsonify JNull = JNull"
| "jsonify (JBool b) = JBool b"
| "jsonify (JNum m e) = (case dec_canon m e of (m', e') \<Rightarrow> JNum m' e')"
| "jsonify (JStr s) = JStr s"
| "jsonify (JArr xs ps) = JArr (jsonify_elems xs) []"
| "jsonify (JObj ps) = JObj (jsonify_members [] ps)"
| "jsonify (JProto p) =
     (case p of
        ObjectPrototype \<Rightarrow> JObj []
      | ArrayPrototype \<Rightarrow> JArr [] []
      | StringPrototype \<Rightarrow> JStr []
      | NumberPrototype \<Rightarrow> JNum 0 0
      | BooleanPrototype \<Rightarrow> JBool False)"
| "jsonify (JWithProto b p) = jsonify b"
| "jsonify_members acc [] = acc"
| "jsonify_members acc ((k, v) # ps) =
     (if v = JUndef then jsonify_members acc ps
      else jsonify_members (AList.update k (jsonify v) acc) ps)"
| "jsonify_elems [] = []"
| "jsonify_elems (x # xs) = jsonify x # jsonify_elems xs"

text \<open>
  Notions for the proof that the text of a value parses: white space, the characters
  a value starts with, the characters that may follow a value in a text, and the
  digits of a number without its sign.
\<close>

definition ws :: "jstring \<Rightarrow> bool" where
  "ws w = list_all is_ws w"

definition value_start :: "nat \<Rightarrow> bool" where
  "value_start c =
     (c = 123 \<or> c = 91 \<or> c = 34 \<or> c = 45 \<or> is_digit c \<or> c = 116 \<or> c = 102 \<or> c = 110)"

definition ok_rest :: "jstring \<Rightarrow> bool" where
  "ok_rest rest = (case rest of [] \<Rightarrow> True | c # cs \<Rightarrow> c = 44 \<or> c = 93 \<or> c = 125 \<or> is_ws c)"

definition dec_body :: "int \<Rightarrow> nat \<Rightarrow> jstring" where
  "dec_body m k =
     (let ds = show_nat (nat \<bar>m\<bar>) in
      if k = 0 then ds
      else if k < length ds then take (length ds - k) ds @ [46] @ drop (length ds - k) ds
      else [48, 46] @ replicate (k - length ds) 48 @ ds)"

section \<open>Conversion to a number\<close>

text \<open>
  \<^verbatim>\<open>ToNumber\<close>, which an assignment to the \<^verbatim>\<open>length\<close> of an array applies to its
  right-hand side. The result is the number as a decimal, or \<open>None\<close> for \<^verbatim>\<open>NaN\<close> and
  the infinities. A string is read as a numeric literal: the white space around it is
  dropped; the empty string is \<open>0\<close>; a literal in base 16, 8 or 2 has its prefix and no
  sign; a decimal literal has an optional sign, digits with an optional point, and an
  optional exponent. An array or object is converted by way of its string.
\<close>

definition is_str_ws :: "nat \<Rightarrow> bool" where
  "is_str_ws c =
     (c \<in> set [9, 10, 11, 12, 13, 32, 160, 5760, 8232, 8233, 8239, 8287, 12288, 65279]
      \<or> (8192 \<le> c \<and> c \<le> 8202))"

definition trim :: "jstring \<Rightarrow> jstring" where
  "trim s = rev (dropWhile is_str_ws (rev (dropWhile is_str_ws s)))"

definition radix_literal :: "nat \<Rightarrow> jstring \<Rightarrow> (int \<times> int) option" where
  "radix_literal b ds =
     (if ds \<noteq> [] \<and> list_all (\<lambda>c. case hex_val c of None \<Rightarrow> False | Some d \<Rightarrow> d < b) ds
      then Some (int (foldl (\<lambda>a c. b * a + (case hex_val c of None \<Rightarrow> 0 | Some d \<Rightarrow> d)) 0 ds), 0)
      else None)"

definition unsigned_decimal :: "jstring \<Rightarrow> (int \<times> int) option" where
  "unsigned_decimal s =
     (let ip = takeWhile is_digit s;
          r1 = dropWhile is_digit s;
          fp = (case r1 of [] \<Rightarrow> [] | c # t \<Rightarrow> if c = 46 then takeWhile is_digit t else []);
          r2 = (case r1 of [] \<Rightarrow> [] | c # t \<Rightarrow> if c = 46 then dropWhile is_digit t else r1)
      in if ip = [] \<and> fp = [] then None
         else (case parse_exp r2 of
                 None \<Rightarrow> None
               | Some (x, r3) \<Rightarrow>
                   if r3 = [] then Some (int (digits_val (ip @ fp)), x - int (length fp))
                   else None))"

definition string_to_number :: "jstring \<Rightarrow> (int \<times> int) option" where
  "string_to_number s =
     (case trim s of
        [] \<Rightarrow> Some (0, 0)
      | c # cs \<Rightarrow>
          if c = 48 \<and> cs \<noteq> [] \<and> (hd cs = 120 \<or> hd cs = 88) then radix_literal 16 (tl cs)
          else if c = 48 \<and> cs \<noteq> [] \<and> (hd cs = 111 \<or> hd cs = 79) then radix_literal 8 (tl cs)
          else if c = 48 \<and> cs \<noteq> [] \<and> (hd cs = 98 \<or> hd cs = 66) then radix_literal 2 (tl cs)
          else if c = 43 then unsigned_decimal cs
          else if c = 45 then
            (case unsigned_decimal cs of None \<Rightarrow> None | Some (m, e) \<Rightarrow> Some (- m, e))
          else unsigned_decimal (c # cs))"

fun ToNumber :: "jv \<Rightarrow> (int \<times> int) option" where
  "ToNumber JUndef = None"
| "ToNumber JNull = Some (0, 0)"
| "ToNumber (JBool b) = Some (if b then 1 else 0, 0)"
| "ToNumber (JNum m e) = Some (m, e)"
| "ToNumber (JStr s) = string_to_number s"
| "ToNumber (JProto BooleanPrototype) = Some (0, 0)"
| "ToNumber v = string_to_number (ToString v)"

section \<open>Properties of values\<close>

subsection \<open>Property keys\<close>

text \<open>
  A path segment is a property name or an array position (\<^verbatim>\<open>string | number\<close>; the
  numbers are the positions that the graph assigns to array elements). As a property
  key, a position is its decimal rendering; conversely a key addresses an element of an
  array when it is the canonical rendering of a number below \<open>2^32 - 1\<close>.
\<close>

datatype seg = Key jstring | Idx nat

fun seg_key :: "seg \<Rightarrow> jstring" where
  "seg_key (Key s) = s"
| "seg_key (Idx n) = show_nat n"

fun is_number :: "seg \<Rightarrow> bool" where
  "is_number (Idx n) = True"
| "is_number (Key s) = False"

definition array_index :: "jstring \<Rightarrow> nat option" where
  "array_index k =
     (if k \<noteq> [] \<and> list_all is_digit k \<and> (if hd k = 48 then k = [48] else True)
         \<and> digits_val k < 4294967295
      then Some (digits_val k) else None)"

definition lookup :: "(jstring \<times> jv) list \<Rightarrow> jstring \<Rightarrow> jv" where
  "lookup ps k = (case map_of ps k of None \<Rightarrow> JUndef | Some v \<Rightarrow> v)"

subsection \<open>What a value owns and what it inherits\<close>

text \<open>
  \<open>own v k\<close> is the value of the own property \<open>k\<close> of \<open>v\<close>, if \<open>v\<close> has one: a member
  of an object, an element or a named property of an array, the \<^verbatim>\<open>length\<close> of an array
  or string, a character of a string. (\<^verbatim>\<open>Array.prototype\<close> is an array and
  \<^verbatim>\<open>String.prototype\<close> a string, both empty.)
\<close>

fun own :: "jv \<Rightarrow> jstring \<Rightarrow> jv option" where
  "own (JStr s) k =
     (case array_index k of
        Some i \<Rightarrow> if i < length s then Some (JStr [s ! i]) else None
      | None \<Rightarrow> if k = lit ''length'' then Some (JNum (int (length s)) 0) else None)"
| "own (JArr xs ps) k =
     (case array_index k of
        Some i \<Rightarrow> if i < length xs then Some (xs ! i) else None
      | None \<Rightarrow> if k = lit ''length'' then Some (JNum (int (length xs)) 0) else map_of ps k)"
| "own (JObj ps) k = map_of ps k"
| "own (JProto p) k =
     (if k = lit ''length'' \<and> (p = ArrayPrototype \<or> p = StringPrototype) then Some (JNum 0 0)
      else None)"
| "own (JWithProto b p) k = own b k"
| "own v k = None"

text \<open>The prototype of a value; a primitive has the prototype of its wrapper.\<close>

fun proto_of :: "jv \<Rightarrow> jv" where
  "proto_of (JObj ps) = JProto ObjectPrototype"
| "proto_of (JArr xs ps) = JProto ArrayPrototype"
| "proto_of (JStr s) = JProto StringPrototype"
| "proto_of (JNum m e) = JProto NumberPrototype"
| "proto_of (JBool b) = JProto BooleanPrototype"
| "proto_of (JProto p) = (if p = ObjectPrototype then JNull else JProto ObjectPrototype)"
| "proto_of (JWithProto b p) = p"
| "proto_of v = JNull"

text \<open>
  \<open>find_in v k\<close> looks the key up from \<open>v\<close> on along the chain of prototypes, as a read
  and an assignment both do. It finds a data property (which is read-only when a
  string owns it), or the accessor \<^verbatim>\<open>__proto__\<close>, which \<^verbatim>\<open>Object.prototype\<close> owns and
  which stands at the end of every chain that does not end in \<^verbatim>\<open>null\<close>, or nothing.
\<close>

datatype found = Data jv | ReadOnly jv | Accessor | Absent

fun fixed :: "jv \<Rightarrow> bool" where
  "fixed (JStr s) = True"
| "fixed (JProto p) = (p = StringPrototype)"
| "fixed v = False"

fun find_in :: "jv \<Rightarrow> jstring \<Rightarrow> found" where
  "find_in (JWithProto b p) k = (case own b k of Some x \<Rightarrow> Data x | None \<Rightarrow> find_in p k)"
| "find_in JUndef k = Absent"
| "find_in JNull k = Absent"
| "find_in v k =
     (case own v k of
        Some x \<Rightarrow> if fixed v then ReadOnly x else Data x
      | None \<Rightarrow> if k = lit ''__proto__'' then Accessor else Absent)"

text \<open>
  \<open>getProp cur k\<close> is the read \<^verbatim>\<open>cur[k]\<close>: it throws on \<^verbatim>\<open>null\<close> and \<^verbatim>\<open>undefined\<close>, yields
  the prototype of \<open>cur\<close> where it finds the accessor, and \<^verbatim>\<open>undefined\<close> for a property
  that is not there.
\<close>

definition getProp :: "jv \<Rightarrow> jstring \<Rightarrow> error + jv" where
  "getProp cur k =
     (if nullish cur then Inl TypeError
      else Inr (case find_in cur k of
                  Data x \<Rightarrow> x
                | ReadOnly x \<Rightarrow> x
                | Accessor \<Rightarrow> proto_of cur
                | Absent \<Rightarrow> JUndef))"

subsection \<open>Assignment\<close>

text \<open>
  An assignment to the \<^verbatim>\<open>length\<close> of an array throws a \<^verbatim>\<open>RangeError\<close> unless the value,
  as a number, is an integer from \<open>0\<close> to \<open>2^32 - 1\<close>; the array is then cut or
  extended with holes.
\<close>

definition set_length :: "jv list \<Rightarrow> nat \<Rightarrow> jv list" where
  "set_length xs n = take n xs @ replicate (n - length xs) JUndef"

definition new_length :: "jv \<Rightarrow> error + nat" where
  "new_length x =
     (case ToNumber x of
        None \<Rightarrow> Inl RangeError
      | Some (m, e) \<Rightarrow>
          (case dec_canon m e of
             (m', e') \<Rightarrow>
               if e' = 0 \<and> 0 \<le> m' \<and> m' < 4294967296 then Inr (nat m') else Inl RangeError))"

text \<open>
  \<open>define_own v k x\<close> gives the object \<open>v\<close> the own property \<open>k\<close> with the value \<open>x\<close>,
  or replaces the value of the one it has. Writing past the end of an array extends it
  with holes.
\<close>

fun define_own :: "jv \<Rightarrow> jstring \<Rightarrow> jv \<Rightarrow> error + jv" where
  "define_own (JObj ps) k x = Inr (JObj (AList.update k x ps))"
| "define_own (JArr xs ps) k x =
     (case array_index k of
        Some i \<Rightarrow> Inr (JArr ((xs @ replicate (Suc i - length xs) JUndef)[i := x]) ps)
      | None \<Rightarrow>
          if k = lit ''length'' then
            (case new_length x of Inl e \<Rightarrow> Inl e | Inr n \<Rightarrow> Inr (JArr (set_length xs n) ps))
          else Inr (JArr xs (AList.update k x ps)))"
| "define_own (JWithProto b p) k x =
     (case define_own b k x of Inl e \<Rightarrow> Inl e | Inr b' \<Rightarrow> Inr (JWithProto b' p))"
| "define_own v k x = Inr v"

text \<open>
  \<open>set_proto v p\<close> is the array or object \<open>v\<close> with the prototype \<open>p\<close>.
\<close>

definition set_proto :: "jv \<Rightarrow> jv \<Rightarrow> jv" where
  "set_proto v p =
     (case v of
        JWithProto b q \<Rightarrow> JWithProto b p
      | _ \<Rightarrow> if p = proto_of v then v else JWithProto v p)"

text \<open>
  An assignment to a property of a prototype object of the engine. The model does not
  record its effect, which every value would share; it says when the assignment
  throws: when it would give \<^verbatim>\<open>Object.prototype\<close> a prototype, when it would close a
  chain of prototypes into a cycle, when it writes the \<^verbatim>\<open>length\<close> of
  \<^verbatim>\<open>String.prototype\<close>, or a \<^verbatim>\<open>length\<close> that \<^verbatim>\<open>Array.prototype\<close> cannot have.
\<close>

fun chain_has :: "jv \<Rightarrow> proto \<Rightarrow> bool" where
  "chain_has (JObj ps) q = (q = ObjectPrototype)"
| "chain_has (JArr xs ps) q = (q = ArrayPrototype \<or> q = ObjectPrototype)"
| "chain_has (JProto r) q = (q = r \<or> q = ObjectPrototype)"
| "chain_has (JWithProto b p) q = chain_has p q"
| "chain_has v q = False"

definition set_builtin :: "proto \<Rightarrow> jstring \<Rightarrow> jv \<Rightarrow> error + jv" where
  "set_builtin pr k x =
     (if k = lit ''__proto__'' then
        (if is_object x \<and> (pr = ObjectPrototype \<or> chain_has x pr) then Inl TypeError
         else Inr (JProto pr))
      else if k = lit ''length'' \<and> pr = StringPrototype then Inl TypeError
      else if k = lit ''length'' \<and> pr = ArrayPrototype then
        (case new_length x of Inl e \<Rightarrow> Inl e | Inr n \<Rightarrow> Inr (JProto pr))
      else Inr (JProto pr))"

text \<open>
  \<open>setProp cur k x\<close> is the assignment \<^verbatim>\<open>cur[k] = x\<close> of a module (strict mode); the
  result is \<open>cur\<close> after the assignment. It throws on \<^verbatim>\<open>null\<close> and \<^verbatim>\<open>undefined\<close>.
  Where the key is found as a data property, on \<open>cur\<close> or up its chain, or is not
  found at all, \<open>cur\<close> gets or keeps it as its own, unless \<open>cur\<close> is a primitive or
  the property is read-only: then the assignment throws. Where the key meets the
  accessor \<^verbatim>\<open>__proto__\<close>, the setter runs and nothing is thrown: it makes an object or
  \<^verbatim>\<open>null\<close> the prototype of an object, and does nothing for any other value or on a
  primitive.
\<close>

fun setProp :: "jv \<Rightarrow> jstring \<Rightarrow> jv \<Rightarrow> error + jv" where
  "setProp JUndef k x = Inl TypeError"
| "setProp JNull k x = Inl TypeError"
| "setProp (JProto pr) k x = set_builtin pr k x"
| "setProp cur k x =
     (case find_in cur k of
        Accessor \<Rightarrow>
          Inr (if is_object cur \<and> (is_object x \<or> x = JNull) then set_proto cur x else cur)
      | ReadOnly y \<Rightarrow> Inl TypeError
      | Data y \<Rightarrow> if is_object cur then define_own cur k x else Inl TypeError
      | Absent \<Rightarrow> if is_object cur then define_own cur k x else Inl TypeError)"

text \<open>
  \<^verbatim>\<open>obj[k] = x\<close> on an object that the component has just made from \<^verbatim>\<open>{}\<close>. (Such an
  assignment throws only for the key \<^verbatim>\<open>length\<close> once \<^verbatim>\<open>String.prototype\<close> has come into
  the chain of \<open>obj\<close>, which takes a value that no document holds; \<open>obj\<close> is then
  left as it is.)
\<close>

definition assign :: "jv \<Rightarrow> jstring \<Rightarrow> jv \<Rightarrow> jv" where
  "assign obj k x = (case setProp obj k x of Inl e \<Rightarrow> obj | Inr obj' \<Rightarrow> obj')"

text \<open>The keys of the own properties of an object.\<close>

fun own_keys :: "jv \<Rightarrow> jstring set" where
  "own_keys (JObj ps) = fst ` set ps"
| "own_keys (JWithProto b p) = own_keys b"
| "own_keys v = {}"

section \<open>Reading and writing by path\<close>

text \<open>
  \<^verbatim>\<open>Array.isArray(obj) ? obj.slice() : { ...obj }\<close>: \<^verbatim>\<open>slice\<close> keeps the elements of an
  array, the spread keeps the own properties of an object, gives the characters of a
  string by position and nothing for any other value. The copy has the prototype of
  a new array or object.
\<close>

definition chars_of :: "jstring \<Rightarrow> (jstring \<times> jv) list" where
  "chars_of s = map (\<lambda>i. (show_nat i, JStr [s ! i])) [0..<length s]"

fun shallow_copy :: "jv \<Rightarrow> jv" where
  "shallow_copy (JArr xs ps) = JArr xs []"
| "shallow_copy (JObj ps) = JObj ps"
| "shallow_copy (JStr s) = JObj (chars_of s)"
| "shallow_copy (JWithProto b p) = shallow_copy b"
| "shallow_copy (JProto p) = (if p = ArrayPrototype then JArr [] [] else JObj [])"
| "shallow_copy _ = JObj []"

text \<open>
  \<^verbatim>\<open>cur[seg] ?? (typeof nextSeg === "number" ? [] : {})\<close>
\<close>

definition or_fresh :: "jv \<Rightarrow> seg \<Rightarrow> jv" where
  "or_fresh old nextSeg =
     (if nullish old then (if is_number nextSeg then JArr [] [] else JObj []) else old)"

text \<open>
  The loop of \<^verbatim>\<open>setAtPath\<close> walks down from \<open>out\<close>, assigning into the objects it
  meets; \<open>out\<close> sees every assignment because it holds references to them. In a
  model of values the same is said by rebuilding: \<open>set_loop cur path v\<close> is \<open>cur\<close>
  after the remaining segments have been handled. For a segment that is not the last:
  read \<^verbatim>\<open>cur[seg]\<close>, assign it or a fresh container to \<^verbatim>\<open>cur[seg]\<close>, continue in what
  was assigned (which is what \<^verbatim>\<open>cur[seg]\<close> then reads as), and \<open>cur\<close> then holds the
  child as the rest of the loop has left it. The last segment receives the value.

  \<open>put_back cur k child\<close> is \<open>cur\<close> seen again after the object that it holds at \<open>k\<close>
  has become \<open>child\<close>: that object is the value of an own property of \<open>cur\<close>, or,
  under the key \<^verbatim>\<open>__proto__\<close>, its prototype.
\<close>

fun replace_own :: "jv \<Rightarrow> jstring \<Rightarrow> jv \<Rightarrow> jv" where
  "replace_own (JObj ps) k c = JObj (AList.update k c ps)"
| "replace_own (JArr xs ps) k c =
     (case array_index k of
        Some i \<Rightarrow> JArr (xs[i := c]) ps
      | None \<Rightarrow> if k = lit ''length'' then JArr xs ps else JArr xs (AList.update k c ps))"
| "replace_own (JWithProto b p) k c = JWithProto (replace_own b k c) p"
| "replace_own v k c = v"

definition put_back :: "jv \<Rightarrow> jstring \<Rightarrow> jv \<Rightarrow> jv" where
  "put_back cur k child =
     (case own cur k of
        Some old \<Rightarrow> replace_own cur k child
      | None \<Rightarrow>
          (case cur of
             JWithProto b p \<Rightarrow> if find_in p k = Accessor then JWithProto b child else cur
           | _ \<Rightarrow> cur))"

fun set_loop :: "jv \<Rightarrow> seg list \<Rightarrow> jv \<Rightarrow> error + jv" where
  "set_loop cur [] v = Inr cur"
| "set_loop cur [lastSeg] v = setProp cur (seg_key lastSeg) v"
| "set_loop cur (seg # nextSeg # rest) v =
     (case getProp cur (seg_key seg) of
        Inl e \<Rightarrow> Inl e
      | Inr old \<Rightarrow>
          (case setProp cur (seg_key seg) (or_fresh old nextSeg) of
             Inl e \<Rightarrow> Inl e
           | Inr cur1 \<Rightarrow>
               (case set_loop (or_fresh old nextSeg) (nextSeg # rest) v of
                  Inl e \<Rightarrow> Inl e
                | Inr child \<Rightarrow> Inr (put_back cur1 (seg_key seg) child))))"

definition setAtPath :: "jv \<Rightarrow> seg list option \<Rightarrow> jv \<Rightarrow> error + jv" where
  "setAtPath obj path v =
     (case path of
        None \<Rightarrow> Inr v
      | Some p \<Rightarrow> if p = [] then Inr v else set_loop (shallow_copy obj) p v)"

fun get_loop :: "jv \<Rightarrow> seg list \<Rightarrow> error + jv" where
  "get_loop cur [] = Inr cur"
| "get_loop cur (seg # rest) =
     (if nullish cur then Inr JUndef
      else (case getProp cur (seg_key seg) of
              Inl e \<Rightarrow> Inl e
            | Inr c \<Rightarrow> get_loop c rest))"

definition getAtPath :: "jv \<Rightarrow> seg list option \<Rightarrow> error + jv" where
  "getAtPath obj path =
     (case path of
        None \<Rightarrow> Inr obj
      | Some p \<Rightarrow> if p = [] then Inr obj else get_loop obj p)"





subsection \<open>Positions of a document\<close>

text \<open>
  A JSON value, as \<^verbatim>\<open>JSON.parse\<close> yields it: no \<^verbatim>\<open>undefined\<close>, numbers in canonical form,
  arrays without named properties, objects with one property for a key, and the
  prototypes that new arrays and objects have.
\<close>

fun json_value :: "jv \<Rightarrow> bool"
  and json_members :: "(jstring \<times> jv) list \<Rightarrow> bool"
  and json_elems :: "jv list \<Rightarrow> bool"
where
  "json_value JUndef = False"
| "json_value JNull = True"
| "json_value (JBool b) = True"
| "json_value (JNum m e) = (dec_canon m e = (m, e))"
| "json_value (JStr s) = True"
| "json_value (JArr xs ps) = (ps = [] \<and> json_elems xs)"
| "json_value (JObj ps) = json_members ps"
| "json_value (JProto p) = False"
| "json_value (JWithProto b p) = False"
| "json_members [] = True"
| "json_members ((k, v) # ps) = (k \<notin> fst ` set ps \<and> json_value v \<and> json_members ps)"
| "json_elems [] = True"
| "json_elems (x # xs) = (json_value x \<and> json_elems xs)"

text \<open>
  \<open>in_document v path\<close>: the path leads to a position that the document has, through
  members that the objects own and elements that the arrays hold.
\<close>

fun in_document :: "jv \<Rightarrow> seg list \<Rightarrow> bool" where
  "in_document v [] = True"
| "in_document (JObj ps) (seg # rest) =
     (case map_of ps (seg_key seg) of None \<Rightarrow> False | Some c \<Rightarrow> in_document c rest)"
| "in_document (JArr xs ps) (seg # rest) =
     (case array_index (seg_key seg) of
        None \<Rightarrow> False
      | Some i \<Rightarrow> i < length xs \<and> in_document (xs ! i) rest)"
| "in_document v (seg # rest) = False"

text \<open>
  What the spec calls storing a value at a path: \<open>put_at v path x\<close> is the document
  \<open>v\<close> with \<open>x\<close> in the place of the value at the path, and nothing else changed. It is
  \<open>v\<close> itself where the path leads to no position of \<open>v\<close>.
\<close>

fun put_at :: "jv \<Rightarrow> seg list \<Rightarrow> jv \<Rightarrow> jv" where
  "put_at v [] x = x"
| "put_at (JObj ps) (seg # rest) x =
     (case map_of ps (seg_key seg) of
        None \<Rightarrow> JObj ps
      | Some c \<Rightarrow> JObj (AList.update (seg_key seg) (put_at c rest x) ps))"
| "put_at (JArr xs ps) (seg # rest) x =
     (case array_index (seg_key seg) of
        None \<Rightarrow> JArr xs ps
      | Some i \<Rightarrow> if i < length xs then JArr (xs[i := put_at (xs ! i) rest x]) ps else JArr xs ps)"
| "put_at v (seg # rest) x = v"

section \<open>The node modal\<close>

subsection \<open>Rows and their flattening\<close>

text \<open>
  A row of a node is \<^verbatim>\<open>{ key, value, type }\<close>; the key may be missing (\<open>None\<close>).
  A node has its rows (\<^verbatim>\<open>text\<close>) and, optionally, its path in the document.
\<close>

record row =
  rkey :: "jstring option"
  rvalue :: jv
  rtype :: jstring

record node =
  node_text :: "row list"
  node_path :: "seg list option"

text \<open>\<^verbatim>\<open>row.key\<close> as a condition: a key that is there and is not the empty string.\<close>

definition has_key :: "row \<Rightarrow> bool" where
  "has_key r = (case rkey r of None \<Rightarrow> False | Some k \<Rightarrow> k \<noteq> [])"

definition key_of :: "row \<Rightarrow> jstring" where
  "key_of r = (case rkey r of None \<Rightarrow> [] | Some k \<Rightarrow> k)"

text \<open>
  The body of the \<^verbatim>\<open>forEach\<close> of \<^verbatim>\<open>normalizeNodeData\<close>: the assignment
  \<^verbatim>\<open>obj[row.key] = row.value\<close>, for a row that is neither array nor object and has a key.
\<close>

definition add_row :: "jv \<Rightarrow> row \<Rightarrow> jv" where
  "add_row obj r =
     (if rtype r \<noteq> lit ''array'' \<and> rtype r \<noteq> lit ''object''
      then (if has_key r then assign obj (key_of r) (rvalue r) else obj)
      else obj)"

definition flatten_rows :: "row list \<Rightarrow> jv" where
  "flatten_rows nodeRows = foldl add_row (JObj []) nodeRows"

text \<open>
  \<^verbatim>\<open>normalizeNodeData\<close>; the argument is \<open>None\<close> when no row list is passed
  (\<^verbatim>\<open>!nodeRows\<close>). The text of an object is always a string.
\<close>

definition normalizeNodeData :: "row list option \<Rightarrow> jstring" where
  "normalizeNodeData nodeRows =
     (case nodeRows of
        None \<Rightarrow> lit ''{}''
      | Some rows \<Rightarrow>
          if length rows = 0 then lit ''{}''
          else if length rows = 1 \<and> \<not> has_key (hd rows) then ToString (rvalue (hd rows))
          else ser (replicate 2 32) [] (flatten_rows rows))"

subsection \<open>State\<close>

text \<open>
  Modelled from the spec: the three stores, whose code is not part of the file. The
  graph store \<^verbatim>\<open>useGraph\<close> holds \<open>selectedNode\<close> and \<open>nodes\<close>, and \<^verbatim>\<open>setSelectedNode\<close>
  replaces the former. The file store \<^verbatim>\<open>useFile\<close> owns the text buffer \<open>contents\<close>:
  \<^verbatim>\<open>getContents()\<close> reads it and \<^verbatim>\<open>setContents({ contents, hasChanges })\<close> stores the
  two fields. The store \<^verbatim>\<open>useJson\<close> holds the text \<open>json\<close>, which \<^verbatim>\<open>setJson\<close> stores.

  The rest of the state is the component's own: \<open>editing\<close>, \<open>editedText\<close>,
  \<open>editedFields\<close> (in the order of \<^verbatim>\<open>Object.entries\<close>), \<open>editedSingleValue\<close>, and
  what it has written with \<^verbatim>\<open>console.error\<close>.
\<close>

record state =
  selectedNode :: "node option"
  nodes :: "node list"
  contents :: jstring
  hasChanges :: bool
  json :: jstring
  editing :: bool
  editedText :: jstring
  editedFields :: "(jstring \<times> jstring) list"
  editedSingleValue :: "jstring option"
  console :: "error list"

subsection \<open>Saving\<close>

text \<open>
  \<^verbatim>\<open>try { newValue = JSON.parse(text) } catch (e) { newValue = text }\<close>
\<close>

definition parse_or_text :: "jstring \<Rightarrow> jv" where
  "parse_or_text t = (case JSON_parse t of Inl e \<Rightarrow> JStr t | Inr v \<Rightarrow> v)"

text \<open>The new value of the variant with one input per field (lines 108 to 127).\<close>

definition new_value_fields :: "state \<Rightarrow> jv" where
  "new_value_fields s =
     (case editedSingleValue s of
        Some t \<Rightarrow> parse_or_text t
      | None \<Rightarrow>
          foldl (\<lambda>obj (k, v). assign obj k (parse_or_text v)) (JObj []) (editedFields s))"

text \<open>The new value of the variant with one text area (lines 337 to 344).\<close>

definition new_value_text :: "state \<Rightarrow> jv" where
  "new_value_text s = parse_or_text (editedText s)"

fun truthy :: "jv \<Rightarrow> bool" where
  "truthy JUndef = False"
| "truthy JNull = False"
| "truthy (JBool b) = b"
| "truthy (JNum m e) = (m \<noteq> 0)"
| "truthy (JStr s) = (s \<noteq> [])"
| "truthy (JArr xs ps) = True"
| "truthy (JObj ps) = True"
| "truthy (JProto p) = True"
| "truthy (JWithProto b p) = True"

text \<open>\<^verbatim>\<open>typeof v === "object"\<close>\<close>

fun typeof_object :: "jv \<Rightarrow> bool" where
  "typeof_object JNull = True"
| "typeof_object (JArr xs ps) = True"
| "typeof_object (JObj ps) = True"
| "typeof_object (JProto p) = True"
| "typeof_object (JWithProto b p) = True"
| "typeof_object _ = False"

text \<open>
  \<^verbatim>\<open>if (existingValue.k && newValue.k === undefined) newValue.k = existingValue.k\<close>;
  the result is \<open>newValue\<close> after the statement.
\<close>

definition carry :: "jstring \<Rightarrow> jv \<Rightarrow> jv \<Rightarrow> error + jv" where
  "carry k existingValue newValue =
     (case getProp existingValue k of
        Inl e \<Rightarrow> Inl e
      | Inr old \<Rightarrow>
          if truthy old then
            (case getProp newValue k of
               Inl e \<Rightarrow> Inl e
             | Inr new \<Rightarrow> if new = JUndef then setProp newValue k old else Inr newValue)
          else Inr newValue)"

text \<open>The guarded block that keeps \<^verbatim>\<open>details\<close> and \<^verbatim>\<open>nutrients\<close> (lines 136 to 139).\<close>

definition preserve :: "jv \<Rightarrow> jv \<Rightarrow> error + jv" where
  "preserve existingValue newValue =
     (if truthy existingValue \<and> typeof_object existingValue \<and> existingValue \<noteq> JNull
         \<and> typeof_object newValue \<and> newValue \<noteq> JNull
      then
        (case carry (lit ''details'') existingValue newValue of
           Inl e \<Rightarrow> Inl e
         | Inr newValue1 \<Rightarrow> carry (lit ''nutrients'') existingValue newValue1)
      else Inr newValue)"

text \<open>
  \<^verbatim>\<open>findPath = p => (p ? JSON.stringify(p) : "")\<close>: a path is serialized as the array
  of its segments.
\<close>

fun seg_value :: "seg \<Rightarrow> jv" where
  "seg_value (Key k) = JStr k"
| "seg_value (Idx n) = JNum (int n) 0"

definition findPath :: "seg list option \<Rightarrow> jstring" where
  "findPath p = (case p of None \<Rightarrow> [] | Some segs \<Rightarrow> ser [] [] (JArr (map seg_value segs) []))"

text \<open>
  The first statements of the \<^verbatim>\<open>try\<close> block of \<^verbatim>\<open>handleSave\<close>, the same in both
  variants: parse the current text, read the existing value, keep \<^verbatim>\<open>details\<close> and
  \<^verbatim>\<open>nutrients\<close>, write the new value at the path. The result is \<open>updated\<close>; \<open>Inl\<close> is
  an exception, which the \<^verbatim>\<open>catch\<close> of the caller receives.
\<close>

definition patch_document :: "jstring \<Rightarrow> seg list option \<Rightarrow> jv \<Rightarrow> error + jv" where
  "patch_document current path newValue =
     (case JSON_parse current of
        Inl e \<Rightarrow> Inl e
      | Inr parsed \<Rightarrow>
     (case getAtPath parsed path of
        Inl e \<Rightarrow> Inl e
      | Inr existingValue \<Rightarrow>
     (case preserve existingValue newValue of
        Inl e \<Rightarrow> Inl e
      | Inr newValue' \<Rightarrow> setAtPath parsed path newValue')))"

text \<open>
  The \<^verbatim>\<open>try\<close> block up to the selection of the node: the text of \<open>updated\<close> goes to
  \<^verbatim>\<open>setContents\<close> and to \<^verbatim>\<open>setJson\<close>, and the node of the refreshed graph with the same
  serialized path is selected. \<open>graph\<close> stands for the graph construction, which is
  not part of the file: the nodes that \<^verbatim>\<open>useGraph.getState().nodes\<close> holds once the
  text has been given to \<^verbatim>\<open>setJson\<close>. A text that is not a string cannot arise
  (\<open>updated\<close> is never \<^verbatim>\<open>undefined\<close>, see \<open>patch_document_defined\<close>); the model gives
  that branch an error of its own.
\<close>

definition save_document ::
  "(jstring \<Rightarrow> node list) \<Rightarrow> state \<Rightarrow> node \<Rightarrow> jv \<Rightarrow> error + state" where
  "save_document graph s nodeData newValue =
     (case patch_document (contents s) (node_path nodeData) newValue of
        Inl e \<Rightarrow> Inl e
      | Inr updated \<Rightarrow>
     (case JSON_stringify 2 updated of
        None \<Rightarrow> Inl NotAString
      | Some newStr \<Rightarrow>
          (let s1 = s\<lparr>contents := newStr, hasChanges := True\<rparr>;
               s2 = s1\<lparr>json := newStr, nodes := graph newStr\<rparr>
           in case find (\<lambda>n. findPath (node_path n) = findPath (node_path nodeData)) (nodes s2) of
                None \<Rightarrow> Inr s2
              | Some target \<Rightarrow> Inr (s2\<lparr>selectedNode := Some target\<rparr>))))"

text \<open>
  \<^verbatim>\<open>handleSave\<close> of the variant with one input per field (lines 105 to 163). The
  \<^verbatim>\<open>catch\<close> block writes to the console and does nothing else.
\<close>

definition handleSave_fields :: "(jstring \<Rightarrow> node list) \<Rightarrow> state \<Rightarrow> state" where
  "handleSave_fields graph s =
     (case selectedNode s of
        None \<Rightarrow> s
      | Some nodeData \<Rightarrow>
          (case save_document graph s nodeData (new_value_fields s) of
             Inr s' \<Rightarrow>
               s'\<lparr>editing := False, editedText := [], editedFields := [],
                  editedSingleValue := None\<rparr>
           | Inl e \<Rightarrow> s\<lparr>console := console s @ [e]\<rparr>))"

text \<open>\<^verbatim>\<open>handleSave\<close> of the variant with one text area (lines 334 to 378).\<close>

definition handleSave_text :: "(jstring \<Rightarrow> node list) \<Rightarrow> state \<Rightarrow> state" where
  "handleSave_text graph s =
     (case selectedNode s of
        None \<Rightarrow> s
      | Some nodeData \<Rightarrow>
          (case save_document graph s nodeData (new_value_text s) of
             Inr s' \<Rightarrow> s'\<lparr>editing := False, editedText := []\<rparr>
           | Inl e \<Rightarrow> s\<lparr>console := console s @ [e]\<rparr>))"

text \<open>\<^verbatim>\<open>handleCancel\<close> of the two variants.\<close>

definition handleCancel_fields :: "state \<Rightarrow> state" where
  "handleCancel_fields s =
     s\<lparr>editing := False, editedText := [], editedFields := [], editedSingleValue := None\<rparr>"

definition handleCancel_text :: "state \<Rightarrow> state" where
  "handleCancel_text s = s\<lparr>editing := False, editedText := []\<rparr>"

subsection \<open>What a completed save leaves\<close>

text \<open>The segments of an optional path; a missing path stands for the root.\<close>

definition path_segs :: "seg list option \<Rightarrow> seg list" where
  "path_segs p = (case p of None \<Rightarrow> [] | Some q \<Rightarrow> q)"

text \<open>
  \<open>saved graph s nd v updated s'\<close>: from the state \<open>s\<close> with the node \<open>nd\<close> selected,
  the save of the value \<open>v\<close> has produced the document \<open>updated\<close> and the state \<open>s'\<close>.
  The current text parses; the value placed at the path of the node is \<open>v\<close> after the
  block that keeps \<^verbatim>\<open>details\<close> and \<^verbatim>\<open>nutrients\<close> (which is \<open>v\<close> itself unless both the
  existing and the new value are arrays or objects), and it is read there again where
  the path leads to a position of the current document; the text of \<open>updated\<close>, with
  a gap of two spaces, is in both stores; the first node of the refreshed graph whose
  serialized path is that of \<open>nd\<close> is selected, if there is one; edit mode is off.
\<close>

definition saved ::
  "(jstring \<Rightarrow> node list) \<Rightarrow> state \<Rightarrow> node \<Rightarrow> jv \<Rightarrow> jv \<Rightarrow> state \<Rightarrow> bool" where
  "saved graph s nd v updated s' =
     ((\<exists>parsed existing v'.
         JSON_parse (contents s) = Inr parsed
         \<and> getAtPath parsed (node_path nd) = Inr existing
         \<and> preserve existing v = Inr v'
         \<and> (if is_container existing \<and> is_container v then True else v' = v)
         \<and> setAtPath parsed (node_path nd) v' = Inr updated
         \<and> (in_document parsed (path_segs (node_path nd)) \<longrightarrow>
              getAtPath updated (node_path nd) = Inr v'))
      \<and> contents s' = ser (replicate 2 32) [] updated
      \<and> json s' = contents s'
      \<and> hasChanges s'
      \<and> nodes s' = graph (contents s')
      \<and> selectedNode s' =
          (case find (\<lambda>n. findPath (node_path n) = findPath (node_path nd)) (nodes s') of
             None \<Rightarrow> selectedNode s
           | Some target \<Rightarrow> Some target)
      \<and> editing s' = False)"

subsection \<open>Sample inputs\<close>




definition scalar_row :: row where
  "scalar_row = \<lparr>rkey = None, rvalue = JNum 5 0, rtype = lit ''number''\<rparr>"

definition dup_rows :: "row list" where
  "dup_rows =
     [\<lparr>rkey = Some (lit ''a''), rvalue = JStr (lit ''{1 key}''), rtype = lit ''object''\<rparr>,
      \<lparr>rkey = Some (lit ''a''), rvalue = JNum 1 0, rtype = lit ''number''\<rparr>]"

definition proto_rows :: "row list" where
  "proto_rows =
     [\<lparr>rkey = Some (lit ''__proto__''), rvalue = JStr (lit ''x''), rtype = lit ''string''\<rparr>,
      \<lparr>rkey = Some (lit ''a''), rvalue = JNum 1 0, rtype = lit ''number''\<rparr>]"

text \<open>
  A state in edit mode: the text \<open>doc\<close> in the stores, the node at path \<open>p\<close> selected,
  and \<open>txt\<close> typed into the input (of either variant).
\<close>

definition editing_state :: "jstring \<Rightarrow> seg list \<Rightarrow> jstring \<Rightarrow> state" where
  "editing_state doc p txt =
     \<lparr>selectedNode = Some \<lparr>node_text = [], node_path = Some p\<rparr>, nodes = [],
      contents = doc, hasChanges = False, json = doc, editing = True, editedText = txt,
      editedFields = [], editedSingleValue = Some txt, console = []\<rparr>"

definition sample_graph :: "jstring \<Rightarrow> node list" where
  "sample_graph t =
     [\<lparr>node_text = [], node_path = Some []\<rparr>,
      \<lparr>node_text = [\<lparr>rkey = Some (lit ''name''), rvalue = JStr (lit ''Pear''),
                     rtype = lit ''string''\<rparr>],
       node_path = Some [Key (lit ''fruit'')]\<rparr>]"

definition fruit_node :: node where
  "fruit_node = \<lparr>node_text = [], node_path = Some [Key (lit ''fruit'')]\<rparr>"

definition name_node :: node where
  "name_node = \<lparr>node_text = [], node_path = Some [Key (lit ''fruit''), Key (lit ''name'')]\<rparr>"

definition pear :: jv where
  "pear = JObj [(lit ''name'', JStr (lit ''Pear''))]"

definition red :: jv where
  "red = JObj [(lit ''color'', JStr (lit ''red''))]"

text \<open>The current text is cut off: it does not parse.\<close>

definition broken_state :: state where
  "broken_state =
     editing_state (lit ''{\"fruit\": '') [Key (lit ''fruit'')] (lit ''{\"name\": \"Pear\"}'')"

text \<open>The path of the node leads through a number.\<close>

definition number_state :: state where
  "number_state =
     editing_state (lit ''{\"fruit\": 5}'') [Key (lit ''fruit''), Key (lit ''name'')] (lit ''Pear'')"

definition plain_state :: state where
  "plain_state =
     editing_state (lit ''{\"fruit\": {\"name\": \"Apple\"}}'')
       [Key (lit ''fruit'')] (lit ''{\"name\": \"Pear\"}'')"

text \<open>The text typed is not JSON.\<close>

definition string_state :: state where
  "string_state =
     editing_state (lit ''{\"fruit\": {\"name\": \"Apple\"}}'')
       [Key (lit ''fruit''), Key (lit ''name'')] (lit ''Pear'')"

text \<open>The existing value has \<^verbatim>\<open>details\<close>, the new one has not.\<close>

definition merge_state :: state where
  "merge_state =
     editing_state (lit ''{\"fruit\": {\"name\": \"Apple\", \"details\": {\"color\": \"red\"}}}'')
       [Key (lit ''fruit'')] (lit ''{\"name\": \"Pear\"}'')"

text \<open>The existing value has \<^verbatim>\<open>details\<close>, and they are \<^verbatim>\<open>false\<close>.\<close>

definition falsy_state :: state where
  "falsy_state =
     editing_state (lit ''{\"fruit\": {\"name\": \"Apple\", \"details\": false}}'')
       [Key (lit ''fruit'')] (lit ''{\"name\": \"Pear\"}'')"

text \<open>The existing value has \<^verbatim>\<open>details\<close>, and the new value is an array.\<close>

definition array_state :: state where
  "array_state =
     editing_state (lit ''{\"fruit\": {\"name\": \"Apple\", \"details\": {\"color\": \"red\"}}}'')
       [Key (lit ''fruit'')] (lit ''[]'')"

text \<open>The path of the node is the key \<^verbatim>\<open>__proto__\<close>, which the document does not own.\<close>

definition proto_node :: node where
  "proto_node = \<lparr>node_text = [], node_path = Some [Key (lit ''__proto__'')]\<rparr>"

definition proto_state :: state where
  "proto_state = editing_state (lit ''{}'') [Key (lit ''__proto__'')] (lit ''5'')"







section \<open>Properties of reading and writing by path\<close>

lemma getProp_not_nullish: "\<not> nullish cur \<Longrightarrow> \<exists>c. getProp cur k = Inr c"
  by (simp add: getProp_def)

lemma get_loop_total: "\<exists>r. get_loop cur p = Inr r"
proof (induction p arbitrary: cur)
  case Nil
  show ?case by simp
next
  case (Cons s p)
  show ?case
  proof (cases "nullish cur")
    case True
    then show ?thesis by simp
  next
    case False
    then obtain c where "getProp cur (seg_key s) = Inr c"
      using getProp_not_nullish by blast
    with False Cons show ?thesis by simp
  qed
qed

lemma getAtPath_returns: "\<exists>r. getAtPath obj path = Inr r"
proof (cases path)
  case None
  then show ?thesis by (simp add: getAtPath_def)
next
  case (Some p)
  then show ?thesis using get_loop_total[of obj p] by (simp add: getAtPath_def)
qed

lemma get_loop_append:
  "get_loop cur (pre @ post) =
     (case get_loop cur pre of Inl e \<Rightarrow> Inl e | Inr c \<Rightarrow> get_loop c post)"
proof (induction pre arbitrary: cur)
  case Nil
  show ?case by simp
next
  case (Cons s pre)
  show ?case
  proof (cases "nullish cur")
    case True
    then show ?thesis by (cases post) auto
  next
    case False
    then show ?thesis using Cons by (auto split: sum.splits)
  qed
qed

lemma container_not_nullish: "is_container c \<Longrightarrow> \<not> nullish c"
  by (cases c) auto

lemma object_not_nullish: "is_object c \<Longrightarrow> \<not> nullish c"
  by (cases c) auto

text \<open>An assignment that does not throw leaves a value that is not \<^verbatim>\<open>undefined\<close>.\<close>

lemma define_own_not_nullish: "define_own cur k x = Inr c \<Longrightarrow> \<not> nullish cur \<Longrightarrow> \<not> nullish c"
  by (cases cur) (auto split: option.splits sum.splits if_splits)

lemma set_proto_not_nullish: "\<not> nullish cur \<Longrightarrow> \<not> nullish (set_proto cur x)"
  by (cases cur) (auto simp: set_proto_def)

lemma setProp_not_nullish: "setProp cur k x = Inr c \<Longrightarrow> \<not> nullish c"
proof (cases "nullish cur")
  case True
  then show "setProp cur k x = Inr c \<Longrightarrow> ?thesis" by (cases cur) auto
next
  case False
  assume a: "setProp cur k x = Inr c"
  show ?thesis
  proof (cases cur)
    case (JProto pr)
    then show ?thesis using a by (auto simp: set_builtin_def split: if_splits sum.splits)
  qed (use a False define_own_not_nullish[of cur k x c] set_proto_not_nullish[of cur x]
       in \<open>auto split: found.splits if_splits\<close>)
qed

lemma replace_own_not_nullish: "\<not> nullish cur \<Longrightarrow> \<not> nullish (replace_own cur k c)"
  by (cases cur) (auto split: option.splits)

lemma put_back_not_nullish: "\<not> nullish cur \<Longrightarrow> \<not> nullish (put_back cur k c)"
  by (cases cur) (auto simp: put_back_def replace_own_not_nullish split: option.splits)

lemma set_loop_not_nullish: "p \<noteq> [] \<Longrightarrow> set_loop cur p v = Inr out \<Longrightarrow> \<not> nullish out"
proof (induction cur p v arbitrary: out rule: set_loop.induct)
  case (1 cur v)
  then show ?case by simp
next
  case (2 cur s v)
  then show ?case using setProp_not_nullish by simp
next
  case (3 cur seg nextSeg rest v)
  from "3.prems"(2) obtain old cur1 child where
    "setProp cur (seg_key seg) (or_fresh old nextSeg) = Inr cur1"
    "out = put_back cur1 (seg_key seg) child"
    by (auto split: sum.splits)
  then show ?case using setProp_not_nullish put_back_not_nullish by blast
qed

text \<open>
  Reads and assignments at a position that the document has: an own member of an
  object, an element of an array.
\<close>

lemma getProp_member: "map_of ps k = Some c \<Longrightarrow> getProp (JObj ps) k = Inr c"
  by (simp add: getProp_def)

lemma getProp_element:
  "array_index k = Some i \<Longrightarrow> i < length xs \<Longrightarrow> getProp (JArr xs ps) k = Inr (xs ! i)"
  by (simp add: getProp_def)

lemma setProp_member:
  "map_of ps k = Some c \<Longrightarrow> setProp (JObj ps) k x = Inr (JObj (AList.update k x ps))"
  by simp

lemma setProp_element:
  "array_index k = Some i \<Longrightarrow> i < length xs \<Longrightarrow>
   setProp (JArr xs ps) k x = Inr (JArr (xs[i := x]) ps)"
  by simp

lemma put_back_member:
  "map_of ps k = Some c \<Longrightarrow> put_back (JObj ps) k x = JObj (AList.update k x ps)"
  by (simp add: put_back_def)

lemma put_back_element:
  "array_index k = Some i \<Longrightarrow> i < length xs \<Longrightarrow>
   put_back (JArr xs ps) k x = JArr (xs[i := x]) ps"
  by (simp add: put_back_def)

lemma in_document_container:
  "in_document c (seg # rest) \<Longrightarrow> \<not> nullish c"
  by (cases c) auto

text \<open>
  At a path that leads to a position of the document, the loop of \<open>setAtPath\<close> does
  what \<open>put_at\<close> says, and reading along the path finds the value.
\<close>

lemma in_document_set_loop:
  "in_document cur p \<Longrightarrow> p \<noteq> [] \<Longrightarrow> set_loop cur p v = Inr (put_at cur p v)"
proof (induction cur p v rule: set_loop.induct)
  case (1 cur v)
  then show ?case by simp
next
  case (2 cur s v)
  show ?case
  proof (cases cur)
    case (JObj ps)
    then show ?thesis using "2.prems"(1) by (auto split: option.splits)
  next
    case (JArr xs ps)
    then show ?thesis using "2.prems"(1) by (auto split: option.splits)
  qed (use "2.prems"(1) in auto)
next
  case (3 cur seg nextSeg rest v)
  let ?k = "seg_key seg"
  show ?case
  proof (cases cur)
    case (JObj ps)
    then obtain c where c: "map_of ps ?k = Some c" "in_document c (nextSeg # rest)"
      using "3.prems"(1) by (auto split: option.splits)
    have fresh: "or_fresh c nextSeg = c"
      using in_document_container[OF c(2)] by (simp add: or_fresh_def)
    have g: "getProp cur ?k = Inr c" using JObj c(1) by (simp add: getProp_member)
    have s: "setProp cur ?k (or_fresh c nextSeg) = Inr (JObj ps)"
      using JObj c(1) fresh by (simp add: update_triv)
    have ih: "set_loop c (nextSeg # rest) v = Inr (put_at c (nextSeg # rest) v)"
      using "3.IH"[OF g s] c(2) fresh by simp
    show ?thesis
      using JObj g s ih c(1) fresh by (simp add: put_back_member)
  next
    case (JArr xs ps)
    then obtain i where i: "array_index ?k = Some i" "i < length xs"
      "in_document (xs ! i) (nextSeg # rest)"
      using "3.prems"(1) by (auto split: option.splits)
    let ?c = "xs ! i"
    have fresh: "or_fresh ?c nextSeg = ?c"
      using in_document_container[OF i(3)] by (simp add: or_fresh_def)
    have g: "getProp cur ?k = Inr ?c" using JArr i by (simp add: getProp_element)
    have s: "setProp cur ?k (or_fresh ?c nextSeg) = Inr (JArr xs ps)"
      using JArr i fresh by simp
    have ih: "set_loop ?c (nextSeg # rest) v = Inr (put_at ?c (nextSeg # rest) v)"
      using "3.IH"[OF g s] i(3) fresh by simp
    show ?thesis
      using JArr g s ih i fresh by (simp add: put_back_element)
  qed (use "3.prems"(1) in auto)
qed

lemma in_document_get_loop:
  "in_document cur p \<Longrightarrow> get_loop (put_at cur p v) p = Inr v"
proof (induction cur p rule: in_document.induct)
  case (2 ps seg rest)
  then obtain c where c: "map_of ps (seg_key seg) = Some c" "in_document c rest"
    by (auto split: option.splits)
  have "getProp (JObj (AList.update (seg_key seg) (put_at c rest v) ps)) (seg_key seg)
          = Inr (put_at c rest v)"
    by (rule getProp_member) (simp add: update_conv')
  then show ?case using c "2.IH"[OF c(1) c(2)] by simp
next
  case (3 xs ps seg rest)
  then obtain i where i: "array_index (seg_key seg) = Some i" "i < length xs"
      "in_document (xs ! i) rest"
    by (auto split: option.splits)
  have "getProp (JArr (xs[i := put_at (xs ! i) rest v]) ps) (seg_key seg)
          = Inr (put_at (xs ! i) rest v)"
    using getProp_element[of "seg_key seg" i "xs[i := put_at (xs ! i) rest v]" ps] i by simp
  then show ?case using i "3.IH"[OF i(1) i(3)] by simp
qed simp_all

lemma json_value_copy: "json_value doc \<Longrightarrow> in_document doc (seg # rest) \<Longrightarrow> shallow_copy doc = doc"
  by (cases doc) auto

lemma setAtPath_put_at:
  "json_value doc \<Longrightarrow> in_document doc (path_segs path) \<Longrightarrow>
   setAtPath doc path v = Inr (put_at doc (path_segs path) v)"
proof (cases "path_segs path")
  case Nil
  then show ?thesis by (auto simp: setAtPath_def path_segs_def split: option.splits)
next
  case (Cons seg rest)
  assume a: "json_value doc" "in_document doc (path_segs path)"
  then have "shallow_copy doc = doc" using Cons json_value_copy by simp
  moreover have "path = Some (seg # rest)"
    using Cons by (auto simp: path_segs_def split: option.splits)
  ultimately show ?thesis
    using in_document_set_loop[of doc "seg # rest" v] a(2) Cons by (simp add: setAtPath_def)
qed

lemma getAtPath_put_at:
  "in_document doc (path_segs path) \<Longrightarrow>
   getAtPath (put_at doc (path_segs path) v) path = Inr v"
  using in_document_get_loop[of doc "path_segs path" v]
  by (auto simp: getAtPath_def path_segs_def split: option.splits)

text \<open>
  A read that ends in an array or object of a JSON value has gone through positions
  of that value: what a primitive or a prototype object of the engine yields is
  neither.
\<close>

lemma getProp_scalar:
  "\<not> is_container c \<Longrightarrow> getProp c k = Inr r \<Longrightarrow> \<not> is_container r"
  by (cases c) (auto simp: getProp_def split: option.splits if_splits)

lemma get_loop_scalar:
  "\<not> is_container c \<Longrightarrow> get_loop c p = Inr r \<Longrightarrow> \<not> is_container r"
proof (induction p arbitrary: c)
  case Nil
  then show ?case by simp
next
  case (Cons s p)
  show ?case
  proof (cases "nullish c")
    case True
    then show ?thesis using Cons.prems by auto
  next
    case False
    then obtain c1 where c1: "getProp c (seg_key s) = Inr c1" "get_loop c1 p = Inr r"
      using Cons.prems(2) by (auto split: sum.splits)
    have "\<not> is_container c1" using Cons.prems(1) c1(1) by (rule getProp_scalar)
    then show ?thesis using Cons.IH c1(2) by blast
  qed
qed

lemma json_members_value: "json_members ps \<Longrightarrow> map_of ps k = Some v \<Longrightarrow> json_value v"
  by (induction ps) (auto split: if_splits)

lemma json_elems_value: "json_elems xs \<Longrightarrow> i < length xs \<Longrightarrow> json_value (xs ! i)"
  by (induction xs arbitrary: i) (auto simp: nth_Cons split: nat.splits)

lemma container_in_document:
  "json_value cur \<Longrightarrow> get_loop cur p = Inr c \<Longrightarrow> is_container c \<Longrightarrow> in_document cur p"
proof (induction p arbitrary: cur)
  case Nil
  show ?case by simp
next
  case (Cons s p)
  let ?k = "seg_key s"
  have cont: "is_container cur"
    using Cons.prems(2,3) get_loop_scalar by blast
  then have nn: "\<not> nullish cur" by (rule container_not_nullish)
  then obtain c1 where c1: "getProp cur ?k = Inr c1" "get_loop c1 p = Inr c"
    using Cons.prems(2) by (auto split: sum.splits)
  have c1c: "is_container c1"
    using c1(2) Cons.prems(3) get_loop_scalar by blast
  show ?case
  proof (cases cur)
    case (JObj ps)
    then have "map_of ps ?k = Some c1"
      using c1(1) c1c by (auto simp: getProp_def split: option.splits if_splits)
    moreover from this have "json_value c1"
      using Cons.prems(1) JObj json_members_value by auto
    ultimately show ?thesis using JObj Cons.IH c1(2) Cons.prems(3) by simp
  next
    case (JArr xs ps)
    then obtain i where i: "array_index ?k = Some i" "i < length xs" "c1 = xs ! i"
      using c1(1) c1c Cons.prems(1)
      by (auto simp: getProp_def split: option.splits if_splits)
    then have "json_value c1" using Cons.prems(1) JArr json_elems_value by auto
    then show ?thesis using JArr i Cons.IH c1(2) Cons.prems(3) by simp
  qed (use cont Cons.prems(1) in auto)
qed









section \<open>Properties of the flattening\<close>

text \<open>An assignment gives an object at most the one key as a new own key.\<close>

lemma own_keys_define_own:
  "define_own v k x = Inr v' \<Longrightarrow> own_keys v' \<subseteq> insert k (own_keys v)"
proof (induction v k x arbitrary: v' rule: define_own.induct)
  case (1 ps k x)
  then show ?case by (auto simp: dom_update)
next
  case (2 xs ps k x)
  then show ?case by (auto split: option.splits if_splits sum.splits)
next
  case (3 b p k x)
  then show ?case by (auto split: sum.splits)
qed auto

lemma own_keys_set_proto: "own_keys (set_proto v p) = own_keys v"
  by (cases v) (auto simp: set_proto_def)

lemma own_keys_setProp:
  "setProp v k x = Inr v' \<Longrightarrow> own_keys v' \<subseteq> insert k (own_keys v)"
proof (cases v)
  case (JProto pr)
  assume "setProp v k x = Inr v'"
  then show ?thesis using JProto by (auto simp: set_builtin_def split: if_splits sum.splits)
qed (use own_keys_define_own[of v k x v'] own_keys_set_proto[of v x]
     in \<open>auto split: found.splits if_splits\<close>)

lemma own_keys_assign: "own_keys (assign obj k x) \<subseteq> insert k (own_keys obj)"
  using own_keys_setProp[of obj k x] by (auto simp: assign_def split: sum.splits)

lemma add_row_keys:
  "k \<in> own_keys (add_row obj r) \<Longrightarrow>
   k \<in> own_keys obj
   \<or> (rtype r \<noteq> lit ''array'' \<and> rtype r \<noteq> lit ''object'' \<and> has_key r \<and> k = key_of r)"
  using own_keys_assign[of obj "key_of r" "rvalue r"]
  by (auto simp: add_row_def simp del: list.map split: if_splits)

lemma foldl_add_row_keys:
  "k \<in> own_keys (foldl add_row obj rows) \<Longrightarrow>
   k \<in> own_keys obj
   \<or> (\<exists>r \<in> set rows. rtype r \<noteq> lit ''array'' \<and> rtype r \<noteq> lit ''object'' \<and> has_key r
                       \<and> k = key_of r)"
proof (induction rows arbitrary: obj)
  case Nil
  then show ?case by simp
next
  case (Cons r rows)
  from Cons.prems have "k \<in> own_keys (foldl add_row (add_row obj r) rows)" by simp
  from Cons.IH[OF this] add_row_keys[of k obj r] show ?case by auto
qed

lemma foldl_add_row_filter:
  "foldl add_row obj (filter (\<lambda>r. rtype r \<noteq> lit ''array'' \<and> rtype r \<noteq> lit ''object'') rows) =
   foldl add_row obj rows"
proof (induction rows arbitrary: obj)
  case Nil
  show ?case by simp
next
  case (Cons r rows)
  have skip:
    "\<not> (rtype r \<noteq> lit ''array'' \<and> rtype r \<noteq> lit ''object'') \<Longrightarrow> add_row obj r = obj"
    by (auto simp: add_row_def)
  show ?case
    using Cons.IH skip
    by (cases "rtype r \<noteq> lit ''array'' \<and> rtype r \<noteq> lit ''object''") simp_all
qed

text \<open>
  C6, as the code has it. Unless the list is empty or is one row without a key,
  \<open>normalizeNodeData\<close> returns the text of the flattened object. The rows of type
  \<^verbatim>\<open>array\<close> and \<^verbatim>\<open>object\<close> contribute nothing to that object: it is the object of the
  list without them. The key of an array or object row is therefore absent from the
  object unless a row of another type has the same key.
\<close>

theorem flatten_rows_other_types:
  "normalizeNodeData (Some rows) =
     (if rows = [] then lit ''{}''
      else if length rows = 1 \<and> \<not> has_key (hd rows) then ToString (rvalue (hd rows))
      else ser (replicate 2 32) [] (flatten_rows rows))
   \<and> flatten_rows rows =
       flatten_rows (filter (\<lambda>r. rtype r \<noteq> lit ''array'' \<and> rtype r \<noteq> lit ''object'') rows)
   \<and> (\<forall>r \<in> set rows.
         (rtype r = lit ''array'' \<or> rtype r = lit ''object'')
         \<and> key_of r \<in> own_keys (flatten_rows rows) \<longrightarrow>
         (\<exists>r' \<in> set rows. rtype r' \<noteq> lit ''array'' \<and> rtype r' \<noteq> lit ''object''
                          \<and> has_key r' \<and> key_of r' = key_of r))"
proof (intro conjI ballI impI)
  show "normalizeNodeData (Some rows) =
     (if rows = [] then lit ''{}''
      else if length rows = 1 \<and> \<not> has_key (hd rows) then ToString (rvalue (hd rows))
      else ser (replicate 2 32) [] (flatten_rows rows))"
    by (simp add: normalizeNodeData_def del: replicate.simps)
  show "flatten_rows rows =
       flatten_rows (filter (\<lambda>r. rtype r \<noteq> lit ''array'' \<and> rtype r \<noteq> lit ''object'') rows)"
    using foldl_add_row_filter[of "JObj []" rows] by (simp add: flatten_rows_def)
next
  fix r
  assume "r \<in> set rows"
    and "(rtype r = lit ''array'' \<or> rtype r = lit ''object'')
         \<and> key_of r \<in> own_keys (flatten_rows rows)"
  then have "key_of r \<in> own_keys (foldl add_row (JObj []) rows)"
    by (simp add: flatten_rows_def)
  from foldl_add_row_keys[OF this]
  show "\<exists>r' \<in> set rows. rtype r' \<noteq> lit ''array'' \<and> rtype r' \<noteq> lit ''object''
                          \<and> has_key r' \<and> key_of r' = key_of r"
    by auto
qed

text \<open>
  C6 as amended, on two rows with the key \<^verbatim>\<open>a\<close>: the first is of type \<^verbatim>\<open>object\<close>, its
  key is a key of the flattened object, and the second row, a number, has that key.
\<close>

theorem flatten_rows_other_types_witness:
  "dup_rows ! 0 \<in> set dup_rows
   \<and> rtype (dup_rows ! 0) = lit ''object''
   \<and> key_of (dup_rows ! 0) \<in> own_keys (flatten_rows dup_rows)
   \<and> (\<exists>r' \<in> set dup_rows. rtype r' \<noteq> lit ''array'' \<and> rtype r' \<noteq> lit ''object''
                             \<and> has_key r' \<and> key_of r' = key_of (dup_rows ! 0))"
proof -
  have h1: "dup_rows ! 0 \<in> set dup_rows" by (simp add: dup_rows_def)
  have h2: "rtype (dup_rows ! 0) = lit ''object''" by (simp add: dup_rows_def)
  have h3: "key_of (dup_rows ! 0) \<in> own_keys (flatten_rows dup_rows)" by code_simp
  from flatten_rows_other_types[of dup_rows]
  have "\<forall>r \<in> set dup_rows.
         (rtype r = lit ''array'' \<or> rtype r = lit ''object'')
         \<and> key_of r \<in> own_keys (flatten_rows dup_rows) \<longrightarrow>
         (\<exists>r' \<in> set dup_rows. rtype r' \<noteq> lit ''array'' \<and> rtype r' \<noteq> lit ''object''
                          \<and> has_key r' \<and> key_of r' = key_of r)"
    by blast
  from this[THEN bspec, OF h1] h1 h2 h3 show ?thesis by blast
qed

text \<open>
  C6, as the claim has it, fails on two rows with one key, the first of type
  \<^verbatim>\<open>object\<close>: its key is a key of the flattened object, and stands in the text shown.
\<close>

theorem flatten_rows_counterexample:
  "rtype (dup_rows ! 0) = lit ''object''
   \<and> key_of (dup_rows ! 0) = lit ''a''
   \<and> flatten_rows dup_rows = JObj [(lit ''a'', JNum 1 0)]
   \<and> normalizeNodeData (Some dup_rows) = lit ''{'' @ [10] @ lit ''  \"a\": 1'' @ [10] @ lit ''}''"
  by code_simp

text \<open>
  A row with the key \<^verbatim>\<open>__proto__\<close> gives the object no key: its value goes to the
  setter that the object inherits.
\<close>

lemma flatten_rows_proto_row:
  "flatten_rows proto_rows = JObj [(lit ''a'', JNum 1 0)]"
  by code_simp

text \<open>
  C7. A list of exactly one row that has no key (or the empty key) flattens to the
  value of the row as a string, \<^verbatim>\<open>String(value)\<close>; no object is built around it.
\<close>

theorem single_keyless_row:
  "rkey r = None \<or> rkey r = Some [] \<Longrightarrow> normalizeNodeData (Some [r]) = ToString (rvalue r)"
  by (auto simp: normalizeNodeData_def has_key_def)

theorem single_keyless_row_witness:
  "rkey scalar_row = None \<and> normalizeNodeData (Some [scalar_row]) = lit ''5''"
proof -
  have h: "rkey scalar_row = None" by (simp add: scalar_row_def)
  have v: "ToString (rvalue scalar_row) = lit ''5''" by code_simp
  show ?thesis using h v single_keyless_row[of scalar_row] by simp
qed

section \<open>JSON.parse after JSON.stringify\<close>

declare parse_value.simps [simp del] parse_elems.simps [simp del] parse_members.simps [simp del]

subsection \<open>Digits\<close>

lemma show_nat_digits: "list_all is_digit (show_nat n)"
proof (induction n rule: show_nat.induct)
  case (1 n)
  show ?case
  proof (cases "n < 10")
    case True
    then show ?thesis by (subst show_nat.simps) (simp add: is_digit_def)
  next
    case False
    have "n mod 10 < 10" by simp
    then have "is_digit (48 + n mod 10)" unfolding is_digit_def by linarith
    with False 1 show ?thesis by (subst show_nat.simps) simp
  qed
qed

lemma show_nat_nonempty: "show_nat n \<noteq> []"
  by (subst show_nat.simps) simp

lemma digits_val_snoc: "digits_val (ds @ [c]) = 10 * digits_val ds + (c - 48)"
  by (simp add: digits_val_def)

lemma digits_val_show_nat: "digits_val (show_nat n) = n"
proof (induction n rule: show_nat.induct)
  case (1 n)
  show ?case
  proof (cases "n < 10")
    case True
    then show ?thesis by (subst show_nat.simps) (simp add: digits_val_def)
  next
    case False
    with 1 show ?thesis by (subst show_nat.simps) (simp add: digits_val_snoc)
  qed
qed

lemma hd_show_nat: "hd (show_nat n) = 48 \<Longrightarrow> n = 0"
proof (induction n rule: show_nat.induct)
  case (1 n)
  show ?case
  proof (cases "n < 10")
    case True
    with "1.prems" show ?thesis by (subst (asm) show_nat.simps) simp
  next
    case False
    have "hd (show_nat n) = hd (show_nat (n div 10))"
      using False show_nat_nonempty[of "n div 10"] by (subst show_nat.simps) simp
    with "1.prems" "1.IH" False have "n div 10 = 0" by simp
    with False show ?thesis by simp
  qed
qed

lemma show_nat_0: "show_nat 0 = [48]"
  by (subst show_nat.simps) simp

lemma digits_val_foldl:
  "foldl (\<lambda>a c. 10 * a + (c - 48)) (a::nat) ys
     = a * 10 ^ length ys + foldl (\<lambda>a c. 10 * a + (c - 48)) 0 ys"
proof (induction ys arbitrary: a)
  case Nil show ?case by simp
next
  case (Cons y ys)
  let ?f = "\<lambda>(a::nat) c. 10 * a + (c - 48)"
  have "foldl ?f a (y # ys) = foldl ?f (10 * a + (y - 48)) ys" by simp
  also have "\<dots> = (10 * a + (y - 48)) * 10 ^ length ys + foldl ?f 0 ys"
    by (rule Cons.IH)
  also have "\<dots> = a * 10 ^ length (y # ys) + ((y - 48) * 10 ^ length ys + foldl ?f 0 ys)"
    by (simp add: algebra_simps)
  also have "(y - 48) * 10 ^ length ys + foldl ?f 0 ys = foldl ?f (y - 48) ys"
    by (rule Cons.IH[symmetric])
  also have "foldl ?f (y - 48) ys = foldl ?f 0 (y # ys)" by simp
  finally show ?case .
qed

lemma digits_val_append: "digits_val (xs @ ys) = digits_val xs * 10 ^ length ys + digits_val ys"
  unfolding digits_val_def foldl_append by (rule digits_val_foldl)

lemma digits_val_zeros: "digits_val (replicate n 48) = 0"
  by (induction n) (simp_all add: digits_val_def)

lemma digits_val_zeros_append: "digits_val (replicate n 48 @ ds) = digits_val ds"
  by (simp add: digits_val_append digits_val_zeros)

lemma ok_rest_not_digit: "ok_rest rest \<Longrightarrow> rest = [] \<or> \<not> is_digit (hd rest)"
  by (auto simp: ok_rest_def is_digit_def is_ws_def split: list.splits)

lemma takeWhile_digits:
  "list_all is_digit xs \<Longrightarrow> ys = [] \<or> \<not> is_digit (hd ys) \<Longrightarrow> takeWhile is_digit (xs @ ys) = xs"
proof (induction xs)
  case Nil
  then show ?case by (cases ys) auto
next
  case (Cons x xs)
  then show ?case by simp
qed

lemma dropWhile_digits:
  "list_all is_digit xs \<Longrightarrow> ys = [] \<or> \<not> is_digit (hd ys) \<Longrightarrow> dropWhile is_digit (xs @ ys) = ys"
proof (induction xs)
  case Nil
  then show ?case by (cases ys) auto
next
  case (Cons x xs)
  then show ?case by simp
qed

subsection \<open>Numbers\<close>

lemma strip_zeros_canon:
  "strip_zeros m k = (m', e') \<Longrightarrow> e' \<le> 0 \<and> (e' < 0 \<longrightarrow> m' mod 10 \<noteq> 0)"
  by (induction k arbitrary: m) (auto split: if_splits)

lemma dec_canon_canon:
  "dec_canon m e = (m', e') \<Longrightarrow> e' \<le> 0 \<and> (e' < 0 \<longrightarrow> m' mod 10 \<noteq> 0)"
  using strip_zeros_canon by (auto simp: dec_canon_def split: if_splits)

lemma strip_zeros_fix: "0 < k \<Longrightarrow> m mod 10 \<noteq> 0 \<Longrightarrow> strip_zeros m k = (m, - int k)"
  by (cases k) auto

lemma dec_canon_fix:
  "(0 < k \<longrightarrow> m mod 10 \<noteq> 0) \<Longrightarrow> dec_canon m (- int k) = (m, - int k)"
  by (cases "k = 0") (auto simp: dec_canon_def strip_zeros_fix)

lemma parse_frac_none: "ok_rest rest \<Longrightarrow> parse_frac rest = Some ([], rest)"
  by (auto simp: parse_frac_def ok_rest_def is_ws_def split: list.splits)

lemma parse_exp_none: "ok_rest rest \<Longrightarrow> parse_exp rest = Some (0, rest)"
  by (auto simp: parse_exp_def ok_rest_def is_ws_def split: list.splits)

lemma not_digit_dot: "\<not> is_digit 46"
  by (simp add: is_digit_def)

lemma show_dec_body: "show_dec m k = (if m < 0 then [45] else []) @ dec_body m k"
  by (simp add: show_dec_def dec_body_def Let_def)

lemma parse_unsigned_parts:
  assumes "takeWhile is_digit s = ip" and "ip \<noteq> []" and "\<not> (hd ip = 48 \<and> 1 < length ip)"
    and "parse_frac (dropWhile is_digit s) = Some (fp, s3)"
    and "parse_exp s3 = Some (x, s4)"
    and "dec_canon ((if neg then - 1 else 1) * int (digits_val (ip @ fp))) (x - int (length fp)) = (m, e)"
  shows "parse_unsigned neg s = Some (JNum m e, s4)"
  using assms by (simp add: parse_unsigned_def Let_def)

lemma parse_unsigned_body:
  assumes rest: "ok_rest rest" and canon: "0 < k \<longrightarrow> m mod 10 \<noteq> 0"
  shows "parse_unsigned (m < 0) (dec_body m k @ rest) = Some (JNum m (- int k), rest)"
proof -
  let ?ds = "show_nat (nat \<bar>m\<bar>)"
  have D1: "list_all is_digit ?ds" by (rule show_nat_digits)
  have D2: "?ds \<noteq> []" by (rule show_nat_nonempty)
  have D3: "digits_val ?ds = nat \<bar>m\<bar>" by (rule digits_val_show_nat)
  have D4: "hd ?ds = 48 \<Longrightarrow> ?ds = [48]" using hd_show_nat[of "nat \<bar>m\<bar>"] show_nat_0 by auto
  have nd: "rest = [] \<or> \<not> is_digit (hd rest)" using rest by (rule ok_rest_not_digit)
  have sg: "(if m < 0 then - 1 else 1) * int (nat \<bar>m\<bar>) = m" by simp
  have fin: "dec_canon ((if m < 0 then - 1 else 1) * int (nat \<bar>m\<bar>)) (0 - int k) = (m, - int k)"
    unfolding sg using dec_canon_fix[OF canon] by simp
  consider (int) "k = 0" | (mid) "0 < k" "k < length ?ds" | (small) "0 < k" "length ?ds \<le> k"
    by linarith
  then show ?thesis
  proof cases
    case int
    have tw: "takeWhile is_digit (?ds @ rest) = ?ds" "dropWhile is_digit (?ds @ rest) = rest"
      using D1 nd by (simp_all add: takeWhile_digits dropWhile_digits)
    have lz: "\<not> (hd ?ds = 48 \<and> 1 < length ?ds)" using D4 by auto
    have b: "dec_body m k @ rest = ?ds @ rest" using int by (simp add: dec_body_def Let_def)
    have f: "dec_canon ((if m < 0 then - 1 else 1) * int (digits_val (?ds @ []))) (0 - int (length ([]::jstring)))
               = (m, - int k)"
      using fin D3 int by simp
    show ?thesis
      unfolding b
      by (rule parse_unsigned_parts[OF tw(1) D2 lz _ parse_exp_none[OF rest] f])
         (simp add: tw(2) parse_frac_none[OF rest])
  next
    case mid
    let ?j = "length ?ds - k"
    let ?ip = "take ?j ?ds" and ?fp = "drop ?j ?ds"
    have j: "0 < ?j" "?j < length ?ds" using mid by simp_all
    have ipd: "list_all is_digit ?ip" "list_all is_digit ?fp"
      using D1 by (simp_all add: list_all_iff, (meson in_set_takeD in_set_dropD)+)
    have body: "dec_body m k @ rest = ?ip @ (46 # ?fp @ rest)"
      using mid by (simp add: dec_body_def Let_def)
    have tw1: "takeWhile is_digit (?ip @ (46 # ?fp @ rest)) = ?ip"
      "dropWhile is_digit (?ip @ (46 # ?fp @ rest)) = 46 # ?fp @ rest"
      using ipd(1) not_digit_dot by (simp_all add: takeWhile_digits dropWhile_digits)
    have tw2: "takeWhile is_digit (?fp @ rest) = ?fp" "dropWhile is_digit (?fp @ rest) = rest"
      using ipd(2) nd by (simp_all add: takeWhile_digits dropWhile_digits)
    have ne: "?ip \<noteq> []" "?fp \<noteq> []" using j D2 by simp_all
    have hd_ip: "hd ?ip = hd ?ds" using j by (simp add: hd_take)
    have lz: "\<not> (hd ?ip = 48 \<and> 1 < length ?ip)"
    proof
      assume "hd ?ip = 48 \<and> 1 < length ?ip"
      then have "?ds = [48]" using hd_ip D4 by simp
      then have "length ?ds = 1" by simp
      with mid show False by simp
    qed
    have pf: "parse_frac (46 # ?fp @ rest) = Some (?fp, rest)"
      using tw2 ne by (simp add: parse_frac_def)
    have dv: "digits_val (?ip @ ?fp) = nat \<bar>m\<bar>" using D3 by simp
    have len: "int (length ?fp) = int k" using mid by simp
    have f: "dec_canon ((if m < 0 then - 1 else 1) * int (digits_val (?ip @ ?fp))) (0 - int (length ?fp))
               = (m, - int k)"
      using fin dv len by simp
    show ?thesis
      unfolding body
      by (rule parse_unsigned_parts[OF tw1(1) ne(1) lz _ parse_exp_none[OF rest] f])
         (simp only: tw1(2) pf)
  next
    case small
    let ?z = "replicate (k - length ?ds) 48"
    let ?fp = "?z @ ?ds"
    have body: "dec_body m k @ rest = [48] @ (46 # ?fp @ rest)"
      using small by (simp add: dec_body_def Let_def)
    have d48: "list_all is_digit [48]" by (simp add: is_digit_def)
    have fpd: "list_all is_digit ?fp" using D1 by (auto simp: is_digit_def list_all_iff)
    have tw1: "takeWhile is_digit ([48] @ (46 # ?fp @ rest)) = [48]"
      "dropWhile is_digit ([48] @ (46 # ?fp @ rest)) = 46 # ?fp @ rest"
      using d48 not_digit_dot by (simp_all add: takeWhile_digits dropWhile_digits del: append.simps)
    have tw2: "takeWhile is_digit (?fp @ rest) = ?fp" "dropWhile is_digit (?fp @ rest) = rest"
      using fpd nd by (simp_all add: takeWhile_digits dropWhile_digits del: append_assoc)
    have ne: "?fp \<noteq> []" using D2 by simp
    have pf: "parse_frac (46 # ?fp @ rest) = Some (?fp, rest)"
      using tw2 ne by (simp add: parse_frac_def del: append_assoc)
    have dv: "digits_val ([48] @ ?fp) = nat \<bar>m\<bar>"
      using D3 digits_val_zeros_append[of "Suc (k - length ?ds)" ?ds] by simp
    have len: "int (length ?fp) = int k" using small by simp
    have lz: "\<not> (hd [48::nat] = 48 \<and> 1 < length [48::nat])" by simp
    have f: "dec_canon ((if m < 0 then - 1 else 1) * int (digits_val ([48] @ ?fp))) (0 - int (length ?fp))
               = (m, - int k)"
      using fin dv len by (simp only:)
    show ?thesis
      unfolding body
      by (rule parse_unsigned_parts[OF tw1(1) _ lz _ parse_exp_none[OF rest] f])
         (simp_all only: tw1(2) pf, simp)
  qed
qed

lemma dec_body_first: "\<exists>c cs. dec_body m k = c # cs \<and> is_digit c"
proof -
  let ?ds = "show_nat (nat \<bar>m\<bar>)"
  have D1: "list_all is_digit ?ds" by (rule show_nat_digits)
  have D2: "?ds \<noteq> []" by (rule show_nat_nonempty)
  then obtain d ds' where ds: "?ds = d # ds'" by (cases ?ds) auto
  with D1 have d: "is_digit d" by simp
  consider (int) "k = 0" | (mid) "0 < k" "k < length ?ds" | (small) "0 < k" "length ?ds \<le> k"
    by linarith
  then show ?thesis
  proof cases
    case int
    then have "dec_body m k = d # ds'" using ds by (simp add: dec_body_def)
    with d show ?thesis by blast
  next
    case mid
    then obtain j where j: "length ?ds - k = Suc j" by (cases "length ?ds - k") auto
    have "dec_body m k = take (Suc j) ?ds @ [46] @ drop (Suc j) ?ds"
      using mid j by (simp add: dec_body_def Let_def)
    also have "\<dots> = d # (take j ds' @ [46] @ drop (Suc j) ?ds)"
      unfolding ds by simp
    finally show ?thesis using d by blast
  next
    case small
    then have "dec_body m k = 48 # (46 # replicate (k - length ?ds) 48 @ ?ds)"
      by (simp add: dec_body_def Let_def)
    moreover have "is_digit 48" by (simp add: is_digit_def)
    ultimately show ?thesis by blast
  qed
qed

lemma parse_number_show_dec:
  assumes "ok_rest rest" and "0 < k \<longrightarrow> m mod 10 \<noteq> 0"
  shows "parse_number (show_dec m k @ rest) = Some (JNum m (- int k), rest)"
proof -
  obtain c cs where b: "dec_body m k = c # cs" "is_digit c" using dec_body_first by blast
  then have "c \<noteq> 45" by (auto simp: is_digit_def)
  then show ?thesis
    using parse_unsigned_body[OF assms] b
    by (auto simp: show_dec_body parse_number_def)
qed

lemma parse_number_num_to_string:
  assumes "ok_rest rest"
  shows "parse_number (num_to_string m e @ rest)
           = Some (case dec_canon m e of (m', e') \<Rightarrow> JNum m' e', rest)"
proof -
  obtain m' e' where c: "dec_canon m e = (m', e')" by (cases "dec_canon m e")
  have e': "e' \<le> 0" and nz: "e' < 0 \<longrightarrow> m' mod 10 \<noteq> 0"
    using dec_canon_canon[OF c] by simp_all
  have k: "0 < nat (- e') \<longrightarrow> m' mod 10 \<noteq> 0" using nz by auto
  have "parse_number (show_dec m' (nat (- e')) @ rest) = Some (JNum m' (- int (nat (- e'))), rest)"
    by (rule parse_number_show_dec[OF assms k])
  moreover have "- int (nat (- e')) = e'" using e' by simp
  moreover have "num_to_string m e = show_dec m' (nat (- e'))"
    by (simp add: num_to_string_def c)
  ultimately show ?thesis by (simp add: c)
qed

lemma num_to_string_first:
  "\<exists>c cs. num_to_string m e = c # cs \<and> (c = 45 \<or> is_digit c)"
proof -
  obtain m' e' where c: "dec_canon m e = (m', e')" by (cases "dec_canon m e")
  obtain d ds where "dec_body m' (nat (- e')) = d # ds" "is_digit d" using dec_body_first by blast
  with c show ?thesis by (auto simp: num_to_string_def show_dec_body)
qed

subsection \<open>Strings\<close>

lemma hex_val_hex_char: "d < 16 \<Longrightarrow> hex_val (hex_char d) = Some d"
  by (auto simp: hex_val_def hex_char_def)

lemma hex4_sum:
  assumes "c < 65536"
  shows "4096 * (c div 4096 mod 16) + 256 * (c div 256 mod 16) + 16 * (c div 16 mod 16) + c mod 16
           = (c::nat)"
proof -
  define x3 where "x3 = c div 4096"
  define x2 where "x2 = c div 256"
  define x1 where "x1 = c div 16"
  have e1: "c = 16 * x1 + c mod 16" unfolding x1_def by simp
  have "x1 div 16 = x2" unfolding x1_def x2_def by (simp add: div_mult2_eq)
  then have e2: "x1 = 16 * x2 + x1 mod 16" by (metis mult_div_mod_eq)
  have "x2 div 16 = x3" unfolding x2_def x3_def by (simp add: div_mult2_eq)
  then have e3: "x2 = 16 * x3 + x2 mod 16" by (metis mult_div_mod_eq)
  have "x3 < 16" unfolding x3_def using assms by simp
  then have e4: "x3 mod 16 = x3" by simp
  have "4096 * (x3 mod 16) + 256 * (x2 mod 16) + 16 * (x1 mod 16) + c mod 16 = c"
    using e1 e2 e3 e4 by linarith
  then show ?thesis unfolding x1_def x2_def x3_def .
qed

lemma hex4_val_uesc:
  assumes "c < 65536"
  shows "hex4_val (hex_char (c div 4096 mod 16)) (hex_char (c div 256 mod 16))
           (hex_char (c div 16 mod 16)) (hex_char (c mod 16)) = Some c"
proof -
  have h: "hex_val (hex_char (c div 4096 mod 16)) = Some (c div 4096 mod 16)"
    "hex_val (hex_char (c div 256 mod 16)) = Some (c div 256 mod 16)"
    "hex_val (hex_char (c div 16 mod 16)) = Some (c div 16 mod 16)"
    "hex_val (hex_char (c mod 16)) = Some (c mod 16)"
    by (rule hex_val_hex_char, simp)+
  show ?thesis
    unfolding hex4_val_def h option.case hex4_sum[OF assms] ..
qed

lemma parse_str_raw:
  "32 \<le> c \<Longrightarrow> c \<noteq> 34 \<Longrightarrow> c \<noteq> 92 \<Longrightarrow> parse_str (c # t) = push c (parse_str t)"
  by simp

lemma parse_str_u:
  "hex4_val a b c' d = Some u \<Longrightarrow> parse_str (92 # 117 # a # b # c' # d # t) = push u (parse_str t)"
  by simp

lemma parse_str_short:
  "unescape e = Some u \<Longrightarrow> e \<noteq> 117 \<Longrightarrow> parse_str (92 # e # t) = push u (parse_str t)"
  by simp

lemma parse_str_uesc:
  assumes "c < 65536"
  shows "parse_str (uesc c @ t) = push c (parse_str t)"
  unfolding uesc_def append.simps by (rule parse_str_u[OF hex4_val_uesc[OF assms]])

lemma parse_str_esc: "parse_str (esc c @ t) = push c (parse_str t)"
proof -
  have sh: "\<And>e u. unescape e = Some u \<Longrightarrow> e \<noteq> 117 \<Longrightarrow> esc c = [92, e] \<Longrightarrow> u = c
              \<Longrightarrow> parse_str (esc c @ t) = push c (parse_str t)"
    using parse_str_short by simp
  consider (b) "c = 8" | (t) "c = 9" | (n) "c = 10" | (f) "c = 12" | (r) "c = 13"
    | (q) "c = 34" | (bs) "c = 92"
    | (ctl) "c < 32" "c \<noteq> 8" "c \<noteq> 9" "c \<noteq> 10" "c \<noteq> 12" "c \<noteq> 13"
    | (raw) "32 \<le> c" "c \<noteq> 34" "c \<noteq> 92"
    by linarith
  then show ?thesis
  proof cases
    case b then show ?thesis by (intro sh[of 98 8]) (simp_all add: unescape_def esc_def)
  next
    case t then show ?thesis by (intro sh[of 116 9]) (simp_all add: unescape_def esc_def)
  next
    case n then show ?thesis by (intro sh[of 110 10]) (simp_all add: unescape_def esc_def)
  next
    case f then show ?thesis by (intro sh[of 102 12]) (simp_all add: unescape_def esc_def)
  next
    case r then show ?thesis by (intro sh[of 114 13]) (simp_all add: unescape_def esc_def)
  next
    case q then show ?thesis by (intro sh[of 34 34]) (simp_all add: unescape_def esc_def)
  next
    case bs then show ?thesis by (intro sh[of 92 92]) (simp_all add: unescape_def esc_def)
  next
    case ctl
    then have "esc c = uesc c" by (simp add: esc_def)
    moreover have "c < 65536" using ctl by simp
    ultimately show ?thesis by (simp only: parse_str_uesc)
  next
    case raw
    then have "esc c = [c]" by (simp add: esc_def)
    then show ?thesis using parse_str_raw[OF raw] by simp
  qed
qed

declare parse_str.simps [simp del]

lemma parse_str_quote_body: "parse_str (quote_body s @ 34 # rest) = Some (s, rest)"
proof (induction s rule: quote_body.induct)
  case 1
  show ?case by (simp add: parse_str.simps)
next
  case (2 c)
  have t: "push c (parse_str (34 # rest)) = Some ([c], rest)"
    by (simp add: push_def parse_str.simps)
  show ?case
  proof (cases "is_high c \<or> is_low c")
    case True
    then have "c < 65536" by (auto simp: is_high_def is_low_def)
    then have "parse_str (uesc c @ 34 # rest) = Some ([c], rest)"
      using t by (simp only: parse_str_uesc)
    with True show ?thesis by auto
  next
    case False
    then show ?thesis using t by (simp add: parse_str_esc)
  qed
next
  case (3 c d cs)
  let ?tail = "quote_body (d # cs) @ 34 # rest"
  have ih_tail: "\<not> (is_high c \<and> is_low d) \<Longrightarrow> parse_str ?tail = Some (d # cs, rest)"
    using 3 by (auto simp del: quote_body.simps)
  show ?case
  proof (cases "is_high c")
    case True
    note hc = True
    show ?thesis
    proof (cases "is_low d")
      case True
      have rc: "32 \<le> c" "c \<noteq> 34" "c \<noteq> 92" and rd: "32 \<le> d" "d \<noteq> 34" "d \<noteq> 92"
        using hc True by (auto simp: is_high_def is_low_def)
      have "parse_str (quote_body cs @ 34 # rest) = Some (cs, rest)"
        using "3.IH"(1)[OF hc True] .
      then have "parse_str (c # d # quote_body cs @ 34 # rest) = Some (c # d # cs, rest)"
        by (simp only: parse_str_raw[OF rc] parse_str_raw[OF rd]) (simp add: push_def)
      with hc True show ?thesis by simp
    next
      case False
      have "c < 65536" using hc by (auto simp: is_high_def)
      then have "parse_str (uesc c @ ?tail) = Some (c # d # cs, rest)"
        using ih_tail False by (simp only: parse_str_uesc) (simp add: push_def)
      with hc False show ?thesis by simp
    qed
  next
    case False
    note nh = False
    show ?thesis
    proof (cases "is_low c")
      case True
      have "c < 65536" using True by (auto simp: is_low_def)
      then have "parse_str (uesc c @ ?tail) = Some (c # d # cs, rest)"
        using ih_tail nh by (simp only: parse_str_uesc) (simp add: push_def)
      with nh True show ?thesis by simp
    next
      case False
      have "parse_str (esc c @ ?tail) = Some (c # d # cs, rest)"
        using ih_tail nh by (simp only: parse_str_esc) (simp add: push_def)
      with nh False show ?thesis by simp
    qed
  qed
qed

lemma parse_str_quote: "parse_str (tl (quote s) @ rest) = Some (s, rest)"
  using parse_str_quote_body by (simp add: quote_def)

subsection \<open>The first characters of a value\<close>

lemma ws_simps [simp]: "ws []" "ws (c # w) = (is_ws c \<and> ws w)" "ws (u @ w) = (ws u \<and> ws w)"
  by (auto simp: ws_def)

lemma ws_replicate: "ws (replicate n 32)"
  by (induction n) (simp_all add: is_ws_def)

lemma skip_ws_ws: "ws w \<Longrightarrow> skip_ws (w @ s) = skip_ws s"
  by (induction w) (simp_all add: skip_ws_def)

lemma skip_ws_start: "\<not> is_ws c \<Longrightarrow> skip_ws (c # s) = c # s"
  by (simp add: skip_ws_def)

lemma skip_ws_pre: "ws w \<Longrightarrow> \<not> is_ws c \<Longrightarrow> skip_ws (w @ c # s) = c # s"
  by (simp add: skip_ws_ws skip_ws_start)

lemma value_start_not: "value_start c \<Longrightarrow> \<not> is_ws c \<and> c \<noteq> 93 \<and> c \<noteq> 125 \<and> c \<noteq> 44"
  by (auto simp: value_start_def is_ws_def is_digit_def)

lemma parse_value_empty_array: "ws w \<Longrightarrow> parse_value (w @ 91 # 93 # rest) = Some (JArr [] [], rest)"
  by (subst parse_value.simps) (simp add: skip_ws_pre skip_ws_start skip_ws_ws is_ws_def)

lemma parse_value_empty_object: "ws w \<Longrightarrow> parse_value (w @ 123 # 125 # rest) = Some (JObj [], rest)"
  by (subst parse_value.simps) (simp add: skip_ws_pre skip_ws_start skip_ws_ws is_ws_def)

lemma parse_value_array:
  "ws w \<Longrightarrow> ws pre \<Longrightarrow> \<not> is_ws d \<Longrightarrow> d \<noteq> 93 \<Longrightarrow>
   parse_value (w @ 91 # pre @ d # ds) = parse_elems [] (d # ds)"
  by (subst parse_value.simps) (simp add: skip_ws_pre skip_ws_start skip_ws_ws is_ws_def)

lemma parse_value_object:
  "ws w \<Longrightarrow> ws pre \<Longrightarrow> \<not> is_ws d \<Longrightarrow> d \<noteq> 125 \<Longrightarrow>
   parse_value (w @ 123 # pre @ d # ds) = parse_members [] (d # ds)"
  by (subst parse_value.simps) (simp add: skip_ws_pre skip_ws_start skip_ws_ws is_ws_def)

lemma parse_value_string:
  "ws w \<Longrightarrow> parse_value (w @ 34 # t) =
     (case parse_str t of None \<Rightarrow> None | Some (x, r) \<Rightarrow> Some (JStr x, r))"
  by (subst parse_value.simps) (simp add: skip_ws_pre skip_ws_start skip_ws_ws is_ws_def)

lemma parse_value_number:
  "ws w \<Longrightarrow> c = 45 \<or> is_digit c \<Longrightarrow> parse_value (w @ c # cs) = parse_number (c # cs)"
  by (subst parse_value.simps) (auto simp: skip_ws_pre skip_ws_start skip_ws_ws is_ws_def is_digit_def)

lemma parse_value_null: "ws w \<Longrightarrow> parse_value (w @ lit ''null'' @ rest) = Some (JNull, rest)"
  by (subst parse_value.simps) (simp add: skip_ws_pre skip_ws_start skip_ws_ws is_ws_def is_digit_def parse_word_def)

lemma parse_value_true: "ws w \<Longrightarrow> parse_value (w @ lit ''true'' @ rest) = Some (JBool True, rest)"
  by (subst parse_value.simps) (simp add: skip_ws_pre skip_ws_start skip_ws_ws is_ws_def is_digit_def parse_word_def)

lemma parse_value_false: "ws w \<Longrightarrow> parse_value (w @ lit ''false'' @ rest) = Some (JBool False, rest)"
  by (subst parse_value.simps) (simp add: skip_ws_pre skip_ws_start skip_ws_ws is_ws_def is_digit_def parse_word_def)

lemma join_Cons: "join sep (a # bs) = a @ (if bs = [] then [] else sep @ join sep bs)"
  by (cases bs) simp_all

lemma wrap_form:
  assumes "parts \<noteq> []" "ws g" "ws ind"
  shows "\<exists>pre w1 w2. ws pre \<and> ws w1 \<and> ws w2
           \<and> wrap opn cls g ind parts = opn # pre @ join (44 # w1) parts @ w2 @ [cls]"
proof (cases "g = []")
  case True
  then have "wrap opn cls g ind parts = opn # [] @ join (44 # []) parts @ [] @ [cls]"
    using assms(1) by (simp add: wrap_def)
  then show ?thesis by (metis ws_simps(1))
next
  case False
  then have "wrap opn cls g ind parts
        = opn # (10 # ind @ g) @ join (44 # (10 # ind @ g)) parts @ (10 # ind) @ [cls]"
    using assms(1) by (simp add: wrap_def)
  moreover have "ws (10 # ind @ g)" "ws (10 # ind)" using assms by (simp_all add: is_ws_def)
  ultimately show ?thesis by blast
qed

lemma ser_first: "\<exists>c t. ser g ind v = c # t \<and> value_start c"
proof (induction v)
  case (JNum m e)
  then show ?case using num_to_string_first[of m e] by (auto simp: value_start_def)
next
  case (JArr xs ps)
  then show ?case by (auto simp: wrap_def value_start_def)
next
  case (JObj ps)
  then show ?case by (auto simp: wrap_def value_start_def)
next
  case (JProto p)
  then show ?case by (cases p) (auto simp: value_start_def is_digit_def)
qed (auto simp: value_start_def quote_def)

subsection \<open>Values\<close>

lemma parse_elems_last:
  "parse_value s = Some (v, t) \<Longrightarrow> skip_ws t = 93 # rest \<Longrightarrow>
   parse_elems acc s = Some (JArr (acc @ [v]) [], rest)"
  by (subst parse_elems.simps) simp

lemma parse_elems_more:
  "parse_value s = Some (v, t) \<Longrightarrow> skip_ws t = 44 # cs \<Longrightarrow> length cs < length s \<Longrightarrow>
   parse_elems acc s = parse_elems (acc @ [v]) cs"
  by (subst parse_elems.simps) simp

lemma parse_members_last:
  "skip_ws s = 34 # s1 \<Longrightarrow> parse_str s1 = Some (k, s2) \<Longrightarrow> skip_ws s2 = 58 # s3 \<Longrightarrow>
   length s3 < length s \<Longrightarrow> parse_value s3 = Some (v, t) \<Longrightarrow> skip_ws t = 125 # rest \<Longrightarrow>
   parse_members acc s = Some (JObj (AList.update k v acc), rest)"
  by (subst parse_members.simps) simp

lemma parse_members_more:
  "skip_ws s = 34 # s1 \<Longrightarrow> parse_str s1 = Some (k, s2) \<Longrightarrow> skip_ws s2 = 58 # s3 \<Longrightarrow>
   length s3 < length s \<Longrightarrow> parse_value s3 = Some (v, t) \<Longrightarrow> skip_ws t = 44 # ds \<Longrightarrow>
   length ds < length s \<Longrightarrow>
   parse_members acc s = parse_members (AList.update k v acc) ds"
  by (subst parse_members.simps) simp

lemma ok_rest_close: "ws w2 \<Longrightarrow> c = 93 \<or> c = 125 \<or> c = 44 \<Longrightarrow> ok_rest (w2 @ c # rest)"
  by (cases w2) (auto simp: ok_rest_def)

lemma ok_rest_Nil: "ok_rest []"
  by (simp add: ok_rest_def)

lemma jsonify_members_none: "ser_members g ind ps = [] \<Longrightarrow> jsonify_members acc ps = acc"
  by (induction ps arbitrary: acc) (auto split: if_splits)

lemma ser_elems_Nil: "ser_elems g ind xs = [] \<longleftrightarrow> xs = []"
  by (cases xs) simp_all

lemma not_ws_chars: "\<not> is_ws 34" "\<not> is_ws 58" "\<not> is_ws 44" "\<not> is_ws 93" "\<not> is_ws 125"
  by (simp_all add: is_ws_def)

text \<open>
  The text of a value, of the members of an object and of the elements of an array,
  with white space before it and with what may follow it in a text, is read back by
  the parser, which returns \<open>jsonify\<close> of the value and the rest of the text.
\<close>

lemma roundtrip:
  shows "ws g \<Longrightarrow> ws ind \<Longrightarrow> ws w \<Longrightarrow> ok_rest rest \<Longrightarrow>
         parse_value (w @ ser g ind v @ rest) = Some (jsonify v, rest)"
    and "ws g \<Longrightarrow> ws ind \<Longrightarrow> ws w \<Longrightarrow> ws w1 \<Longrightarrow> ws w2 \<Longrightarrow> ser_members g ind ps \<noteq> [] \<Longrightarrow>
         parse_members acc (w @ join (44 # w1) (ser_members g ind ps) @ w2 @ 125 # rest)
           = Some (JObj (jsonify_members acc ps), rest)"
    and "ws g \<Longrightarrow> ws ind \<Longrightarrow> ws w \<Longrightarrow> ws w1 \<Longrightarrow> ws w2 \<Longrightarrow> xs \<noteq> [] \<Longrightarrow>
         parse_elems eacc (w @ join (44 # w1) (ser_elems g ind xs) @ w2 @ 93 # rest)
           = Some (JArr (eacc @ jsonify_elems xs) [], rest)"
proof (induction g ind v and g ind ps and g ind xs
       arbitrary: w rest and w w1 w2 acc rest and w w1 w2 eacc rest
       rule: ser_ser_members_ser_elems.induct)
  case (1 g ind)
  then show ?case using parse_value_null[of w rest] by simp
next
  case (2 g ind)
  then show ?case using parse_value_null[of w rest] by simp
next
  case (3 g ind b)
  then show ?case using parse_value_true[of w rest] parse_value_false[of w rest] by simp
next
  case (4 g ind m e)
  obtain c cs where f: "num_to_string m e = c # cs" "c = 45 \<or> is_digit c"
    using num_to_string_first by blast
  have "parse_value (w @ c # (cs @ rest)) = parse_number (c # (cs @ rest))"
    using "4.prems"(3) f(2) by (rule parse_value_number)
  also have "\<dots> = parse_number (num_to_string m e @ rest)" using f(1) by simp
  also have "\<dots> = Some (case dec_canon m e of (m', e') \<Rightarrow> JNum m' e', rest)"
    using "4.prems"(4) by (rule parse_number_num_to_string)
  finally show ?case using f(1) by simp
next
  case (5 g ind s)
  have "parse_value (w @ 34 # (quote_body s @ 34 # rest))
          = (case parse_str (quote_body s @ 34 # rest) of None \<Rightarrow> None
             | Some (x, r) \<Rightarrow> Some (JStr x, r))"
    using "5.prems"(3) by (rule parse_value_string)
  then show ?case by (simp add: quote_def parse_str_quote_body)
next
  case (6 g ind xs ps)
  show ?case
  proof (cases "xs = []")
    case True
    then show ?thesis using parse_value_empty_array[OF "6.prems"(3), of rest] by (simp add: wrap_def)
  next
    case False
    then have ne: "ser_elems g (ind @ g) xs \<noteq> []" by (simp add: ser_elems_Nil)
    obtain pre w1 w2 where f: "ws pre" "ws w1" "ws w2"
      "wrap 91 93 g ind (ser_elems g (ind @ g) xs)
         = 91 # pre @ join (44 # w1) (ser_elems g (ind @ g) xs) @ w2 @ [93]"
      using wrap_form[OF ne "6.prems"(1,2)] by blast
    let ?X = "join (44 # w1) (ser_elems g (ind @ g) xs) @ w2 @ 93 # rest"
    obtain x xs' where xs: "xs = x # xs'" using False by (cases xs) auto
    obtain c t where c: "ser g (ind @ g) x = c # t" "value_start c" using ser_first by blast
    then have X: "?X = c # (t @ (if ser_elems g (ind @ g) xs' = [] then []
                                 else (44 # w1) @ join (44 # w1) (ser_elems g (ind @ g) xs'))
                          @ w2 @ 93 # rest)"
      unfolding xs by (simp add: join_Cons)
    have nc: "\<not> is_ws c" "c \<noteq> 93" using c(2) value_start_not by blast+
    have "parse_value (w @ ser g ind (JArr xs ps) @ rest) = parse_value (w @ 91 # pre @ ?X)"
      using f(4) by simp
    also have "\<dots> = parse_elems [] ?X"
      unfolding X using "6.prems"(3) f(1) nc by (rule parse_value_array)
    also have "\<dots> = parse_elems [] ([] @ ?X)" by simp
    also have "\<dots> = Some (JArr ([] @ jsonify_elems xs) [], rest)"
      using "6.prems"(1,2) f(2,3) False by (intro "6.IH") simp_all
    finally show ?thesis by simp
  qed
next
  case (7 g ind ps)
  show ?case
  proof (cases "ser_members g (ind @ g) ps = []")
    case True
    then show ?thesis
      using parse_value_empty_object[OF "7.prems"(3), of rest] jsonify_members_none[OF True, of "[]"]
      by (simp add: wrap_def)
  next
    case False
    obtain pre w1 w2 where f: "ws pre" "ws w1" "ws w2"
      "wrap 123 125 g ind (ser_members g (ind @ g) ps)
         = 123 # pre @ join (44 # w1) (ser_members g (ind @ g) ps) @ w2 @ [125]"
      using wrap_form[OF False "7.prems"(1,2)] by blast
    let ?X = "join (44 # w1) (ser_members g (ind @ g) ps) @ w2 @ 125 # rest"
    obtain p parts where parts: "ser_members g (ind @ g) ps = p # parts"
      using False by (cases "ser_members g (ind @ g) ps") auto
    have "\<exists>t. p = 34 # t"
      using parts by (induction ps) (auto simp: quote_def split: if_splits)
    then obtain t where p: "p = 34 # t" by blast
    have X: "?X = 34 # (t @ (if parts = [] then [] else (44 # w1) @ join (44 # w1) parts)
                          @ w2 @ 125 # rest)"
      unfolding parts p by (simp add: join_Cons)
    have "parse_value (w @ ser g ind (JObj ps) @ rest) = parse_value (w @ 123 # pre @ ?X)"
      using f(4) by simp
    also have "\<dots> = parse_members [] ?X"
      unfolding X using "7.prems"(3) f(1) by (rule parse_value_object) (simp_all add: is_ws_def)
    also have "\<dots> = parse_members [] ([] @ ?X)" by simp
    also have "\<dots> = Some (JObj (jsonify_members [] ps), rest)"
      using "7.prems"(1,2) f(2,3) False by (intro "7.IH") simp_all
    finally show ?thesis by simp
  qed
next
  case (8 g ind p)
  show ?case
  proof (cases p)
    case ObjectPrototype
    then show ?thesis using parse_value_empty_object[OF "8.prems"(3), of rest] by simp
  next
    case ArrayPrototype
    then show ?thesis using parse_value_empty_array[OF "8.prems"(3), of rest] by simp
  next
    case StringPrototype
    have "parse_value (w @ 34 # (34 # rest))
            = (case parse_str (34 # rest) of None \<Rightarrow> None | Some (x, r) \<Rightarrow> Some (JStr x, r))"
      using "8.prems"(3) by (rule parse_value_string)
    moreover have "parse_str (34 # rest) = Some ([], rest)"
      using parse_str_quote_body[of "[]" rest] by simp
    ultimately show ?thesis using StringPrototype by simp
  next
    case NumberPrototype
    have "parse_value (w @ 48 # ([] @ rest)) = parse_number (48 # ([] @ rest))"
      using "8.prems"(3) by (rule parse_value_number) (simp add: is_digit_def)
    also have "\<dots> = parse_number (num_to_string 0 0 @ rest)"
      by (simp add: num_to_string_def dec_canon_def show_dec_def show_nat_0)
    also have "\<dots> = Some (case dec_canon 0 0 of (m', e') \<Rightarrow> JNum m' e', rest)"
      using "8.prems"(4) by (rule parse_number_num_to_string)
    finally show ?thesis using NumberPrototype by (simp add: dec_canon_def)
  next
    case BooleanPrototype
    then show ?thesis using parse_value_false[OF "8.prems"(3), of rest] by simp
  qed
next
  case (9 g ind b p)
  then show ?case by simp
next
  case (10 g ind)
  then show ?case by simp
next
  case (11 g ind k v ps)
  show ?case
  proof (cases "v = JUndef")
    case True
    then show ?thesis using "11.IH"(1)[OF True "11.prems"(1-5)] "11.prems"(6) by simp
  next
    case False
    let ?sp = "if g = [] then [] else [32::nat]"
    let ?more = "ser_members g ind ps"
    let ?T = "(if ?more = [] then [] else (44 # w1) @ join (44 # w1) ?more) @ w2 @ 125 # rest"
    let ?s3 = "?sp @ ser g ind v @ ?T"
    let ?s2 = "58 # ?s3"
    let ?s1 = "quote_body k @ 34 # ?s2"
    let ?s = "w @ 34 # ?s1"
    have s: "w @ join (44 # w1) (ser_members g ind ((k, v) # ps)) @ w2 @ 125 # rest = ?s"
      using False by (simp add: join_Cons quote_def)
    have a1: "skip_ws ?s = 34 # ?s1" using "11.prems"(3) by (simp add: skip_ws_pre not_ws_chars)
    have a2: "parse_str ?s1 = Some (k, ?s2)" by (rule parse_str_quote_body)
    have a3: "skip_ws ?s2 = 58 # ?s3" by (simp add: skip_ws_start not_ws_chars)
    have a4: "length ?s3 < length ?s" by simp
    have wsp: "ws ?sp" by (simp add: is_ws_def)
    have okT: "ok_rest ?T"
      using "11.prems"(5) ok_rest_close[of w2 125 rest] by (auto simp: ok_rest_def)
    have a5: "parse_value ?s3 = Some (jsonify v, ?T)"
      using "11.IH"(2)[OF False "11.prems"(1,2) wsp okT] .
    show ?thesis
    proof (cases "?more = []")
      case True
      then have a6: "skip_ws ?T = 125 # rest"
        using "11.prems"(5) by (simp add: skip_ws_pre not_ws_chars)
      have "parse_members acc ?s = Some (JObj (AList.update k (jsonify v) acc), rest)"
        using a1 a2 a3 a4 a5 a6 by (rule parse_members_last)
      then show ?thesis
        unfolding s using False jsonify_members_none[OF True] by simp
    next
      case more: False
      let ?ds = "w1 @ join (44 # w1) ?more @ w2 @ 125 # rest"
      have a6: "skip_ws ?T = 44 # ?ds"
        using more by (simp add: skip_ws_start not_ws_chars)
      have a7: "length ?ds < length ?s" using more by simp
      have "parse_members acc ?s = parse_members (AList.update k (jsonify v) acc) ?ds"
        using a1 a2 a3 a4 a5 a6 a7 by (rule parse_members_more)
      also have "\<dots> = Some (JObj (jsonify_members (AList.update k (jsonify v) acc) ps), rest)"
        using "11.IH"(3)[OF False "11.prems"(1,2) "11.prems"(4) "11.prems"(4,5) more] .
      finally show ?thesis unfolding s using False by simp
    qed
  qed
next
  case (12 g ind)
  then show ?case by simp
next
  case (13 g ind x xs)
  let ?more = "ser_elems g ind xs"
  let ?T = "(if xs = [] then [] else (44 # w1) @ join (44 # w1) ?more) @ w2 @ 93 # rest"
  let ?s = "w @ ser g ind x @ ?T"
  have s: "w @ join (44 # w1) (ser_elems g ind (x # xs)) @ w2 @ 93 # rest = ?s"
    by (simp add: join_Cons ser_elems_Nil)
  have okT: "ok_rest ?T"
    using "13.prems"(5) ok_rest_close[of w2 93 rest] by (auto simp: ok_rest_def)
  have a1: "parse_value ?s = Some (jsonify x, ?T)"
    using "13.IH"(1)[OF "13.prems"(1,2,3) okT] .
  show ?case
  proof (cases "xs = []")
    case True
    then have a2: "skip_ws ?T = 93 # rest"
      using "13.prems"(5) by (simp add: skip_ws_pre not_ws_chars)
    have "parse_elems eacc ?s = Some (JArr (eacc @ [jsonify x]) [], rest)"
      using a1 a2 by (rule parse_elems_last)
    then show ?thesis unfolding s using True by simp
  next
    case False
    let ?cs = "w1 @ join (44 # w1) ?more @ w2 @ 93 # rest"
    have a2: "skip_ws ?T = 44 # ?cs" using False by (simp add: skip_ws_start not_ws_chars)
    have a3: "length ?cs < length ?s" using False by simp
    have "parse_elems eacc ?s = parse_elems (eacc @ [jsonify x]) ?cs"
      using a1 a2 a3 by (rule parse_elems_more)
    also have "\<dots> = Some (JArr ((eacc @ [jsonify x]) @ jsonify_elems xs) [], rest)"
      using "13.IH"(2)[OF "13.prems"(1,2) "13.prems"(4) "13.prems"(4,5) False] .
    finally show ?thesis unfolding s by simp
  qed
qed

lemma JSON_parse_ser: "ws g \<Longrightarrow> JSON_parse (ser g [] v) = Inr (jsonify v)"
  using roundtrip(1)[of g "[]" "[]" "[]" v] by (simp add: JSON_parse_def ok_rest_Nil skip_ws_def)

lemma JSON_parse_stringify: "JSON_stringify n v = Some t \<Longrightarrow> JSON_parse t = Inr (jsonify v)"
  using JSON_parse_ser[OF ws_replicate] by (auto simp: JSON_stringify_def split: if_splits)

subsection \<open>The parser consumes what it reads\<close>

lemma length_skip_ws: "length (skip_ws s) \<le> length s"
  by (simp add: skip_ws_def length_dropWhile_le)

lemma skip_ws_Cons_length: "skip_ws s = c # cs \<Longrightarrow> length cs < length s"
  using length_skip_ws[of s] by simp

lemma push_Some: "push u x = Some (t, r) \<Longrightarrow> \<exists>t'. x = Some (t', r)"
  by (auto simp: push_def split: option.splits)

lemma parse_str_shorter: "parse_str s = Some (t, r) \<Longrightarrow> length r < length s"
proof (induction s arbitrary: t rule: parse_str.induct)
  case 1
  then show ?case by (simp add: parse_str.simps)
next
  case (2 c cs)
  show ?case
  proof (cases "c = 34")
    case True
    with "2.prems" show ?thesis by (simp add: parse_str.simps)
  next
    case n34: False
    show ?thesis
    proof (cases "c = 92")
      case True
      with "2.prems" n34 obtain e r0 where cs: "cs = e # r0"
        by (cases cs) (auto simp: parse_str.simps)
      show ?thesis
      proof (cases "e = 117")
        case u: True
        with "2.prems" True n34 cs obtain a b c' d r' uu where
          r0: "r0 = a # b # c' # d # r'" and hv: "hex4_val a b c' d = Some uu"
          and p: "push uu (parse_str r') = Some (t, r)"
          by (auto simp: parse_str.simps split: list.splits option.splits)
        from p obtain t' where "parse_str r' = Some (t', r)" using push_Some by blast
        then have "length r < length r'"
          using "2.IH"(1)[OF n34 True cs u r0 _ _ _ hv] by simp
        then show ?thesis using cs r0 by simp
      next
        case nu: False
        with "2.prems" True n34 cs obtain uu where
          ue: "unescape e = Some uu" and p: "push uu (parse_str r0) = Some (t, r)"
          by (auto simp: parse_str.simps split: option.splits)
        from p obtain t' where "parse_str r0 = Some (t', r)" using push_Some by blast
        then have "length r < length r0"
          using "2.IH"(2)[OF n34 True cs nu ue] by simp
        then show ?thesis using cs by simp
      qed
    next
      case n92: False
      with "2.prems" n34 have c32: "\<not> c < 32" and p: "push c (parse_str cs) = Some (t, r)"
        by (auto simp: parse_str.simps split: if_splits)
      from p obtain t' where "parse_str cs = Some (t', r)" using push_Some by blast
      then have "length r < length cs"
        using "2.IH"(3)[OF n34 n92 c32] by simp
      then show ?thesis by simp
    qed
  qed
qed

lemma parse_frac_length: "parse_frac s = Some (fp, r) \<Longrightarrow> length r \<le> length s"
  by (auto simp: parse_frac_def length_dropWhile_le le_SucI split: list.splits if_splits)

lemma parse_exp_length: "parse_exp s = Some (x, r) \<Longrightarrow> length r \<le> length s"
  by (auto simp: parse_exp_def parse_exp_digits_def length_dropWhile_le le_SucI
           split: list.splits if_splits)

lemma dropWhile_shorter: "takeWhile P s \<noteq> [] \<Longrightarrow> length (dropWhile P s) < length s"
  by (cases s) (auto simp: length_dropWhile_le less_Suc_eq_le split: if_splits)

lemma parse_unsigned_shorter: "parse_unsigned neg s = Some (v, r) \<Longrightarrow> length r < length s"
proof -
  assume a: "parse_unsigned neg s = Some (v, r)"
  then have ne: "takeWhile is_digit s \<noteq> []"
    by (auto simp: parse_unsigned_def Let_def split: if_splits)
  from a obtain fp s3 x where f: "parse_frac (dropWhile is_digit s) = Some (fp, s3)"
    and e: "parse_exp s3 = Some (x, r)"
    by (auto simp: parse_unsigned_def Let_def split: if_splits option.splits prod.splits)
  show ?thesis
    using dropWhile_shorter[OF ne] parse_frac_length[OF f] parse_exp_length[OF e] by linarith
qed

lemma parse_number_shorter: "parse_number s = Some (v, r) \<Longrightarrow> length r < length s"
  using parse_unsigned_shorter
  by (fastforce simp: parse_number_def split: list.splits if_splits)

lemma parse_word_shorter: "w \<noteq> [] \<Longrightarrow> parse_word w x s = Some (v, r) \<Longrightarrow> length r < length s"
  by (cases s) (auto simp: parse_word_def split: if_splits)

text \<open>
  Every function of the parser returns a rest that is shorter than its input. The
  tests on lengths in \<open>parse_elems\<close> and \<open>parse_members\<close> therefore never fail: the
  functions satisfy the equations without them.
\<close>

lemma parse_shorter:
  shows "parse_value s = Some (v, r) \<longrightarrow> length r < length s"
    and "parse_elems acc s = Some (v, r) \<longrightarrow> length r < length s"
    and "parse_members macc s = Some (v, r) \<longrightarrow> length r < length s"
proof (induction s and acc s and macc s arbitrary: v r and v r and v r
       rule: parse_value_parse_elems_parse_members.induct)
  case (1 s)
  show ?case
  proof
    assume a: "parse_value s = Some (v, r)"
    then obtain c cs where sk: "skip_ws s = c # cs"
      by (subst (asm) parse_value.simps) (auto split: list.splits)
    have l: "length cs < length s" using sk by (rule skip_ws_Cons_length)
    have l2: "length (c # cs) \<le> length s" using sk length_skip_ws[of s] by simp
    consider (obj) "c = 123" | (arr) "c = 91" "c \<noteq> 123" | (str) "c = 34"
      | (other) "c \<noteq> 123" "c \<noteq> 91" "c \<noteq> 34"
      by blast
    then show "length r < length s"
    proof cases
      case obj
      with a sk obtain d ds where d: "skip_ws cs = d # ds"
        by (subst (asm) parse_value.simps) (auto split: list.splits)
      have ld: "length (d # ds) \<le> length cs" using d length_skip_ws[of cs] by simp
      show ?thesis
      proof (cases "d = 125")
        case True
        with a sk obj d have "r = ds" by (subst (asm) parse_value.simps) simp
        with ld l show ?thesis by simp
      next
        case False
        with a sk obj d have "parse_members [] (d # ds) = Some (v, r)"
          by (subst (asm) parse_value.simps) simp
        then have "length r < length (d # ds)"
          using "1.IH"(1)[OF sk obj d False] by simp
        with ld l show ?thesis by simp
      qed
    next
      case arr
      with a sk obtain d ds where d: "skip_ws cs = d # ds"
        by (subst (asm) parse_value.simps) (auto split: list.splits)
      have ld: "length (d # ds) \<le> length cs" using d length_skip_ws[of cs] by simp
      show ?thesis
      proof (cases "d = 93")
        case True
        with a sk arr d have "r = ds" by (subst (asm) parse_value.simps) simp
        with ld l show ?thesis by simp
      next
        case False
        with a sk arr d have "parse_elems [] (d # ds) = Some (v, r)"
          by (subst (asm) parse_value.simps) simp
        then have "length r < length (d # ds)"
          using "1.IH"(2)[OF sk arr(2) arr(1) d False] by simp
        with ld l show ?thesis by simp
      qed
    next
      case str
      with a sk obtain t where "parse_str cs = Some (t, r)"
        by (subst (asm) parse_value.simps) (auto split: option.splits)
      then have "length r < length cs" by (rule parse_str_shorter)
      with l show ?thesis by simp
    next
      case other
      with a sk have "parse_number (c # cs) = Some (v, r)
          \<or> parse_word (lit ''true'') (JBool True) (c # cs) = Some (v, r)
          \<or> parse_word (lit ''false'') (JBool False) (c # cs) = Some (v, r)
          \<or> parse_word (lit ''null'') JNull (c # cs) = Some (v, r)"
        by (subst (asm) parse_value.simps) (auto split: if_splits)
      then have "length r < length (c # cs)"
        using parse_number_shorter parse_word_shorter by (metis list.simps(3) list.map_disc_iff)
      with l2 show ?thesis by simp
    qed
  qed
next
  case (2 acc s)
  show ?case
  proof
    assume a: "parse_elems acc s = Some (v, r)"
    then obtain x t where pv: "parse_value s = Some (x, t)"
      by (subst (asm) parse_elems.simps) (auto split: option.splits)
    have lt: "length t < length s" using "2.IH"(1) pv by simp
    from a pv obtain c cs where sk: "skip_ws t = c # cs"
      by (subst (asm) parse_elems.simps) (auto split: list.splits)
    have lc: "length cs < length t" using sk by (rule skip_ws_Cons_length)
    show "length r < length s"
    proof (cases "c = 44")
      case True
      with a pv sk lt lc have "parse_elems (acc @ [x]) cs = Some (v, r)"
        by (subst (asm) parse_elems.simps) (simp split: if_splits)
      moreover have "length cs < length s" using lt lc by simp
      ultimately have "length r < length cs"
        using "2.IH"(2)[OF pv refl sk True] by simp
      with lt lc show ?thesis by simp
    next
      case False
      with a pv sk have "r = cs"
        by (subst (asm) parse_elems.simps) (simp split: if_splits)
      with lt lc show ?thesis by simp
    qed
  qed
next
  case (3 acc s)
  show ?case
  proof
    assume a: "parse_members acc s = Some (v, r)"
    then obtain q s1 where sk: "skip_ws s = q # s1"
      by (subst (asm) parse_members.simps) (auto split: list.splits)
    from a sk have q: "q = 34"
      by (subst (asm) parse_members.simps) (auto split: if_splits)
    from a sk q obtain k s2 where ps: "parse_str s1 = Some (k, s2)"
      by (subst (asm) parse_members.simps) (auto split: option.splits)
    from a sk q ps obtain c s3 where sk2: "skip_ws s2 = c # s3"
      by (subst (asm) parse_members.simps) (auto split: list.splits)
    from a sk q ps sk2 have c: "c = 58 \<and> length s3 < length s"
      by (subst (asm) parse_members.simps) (auto split: if_splits)
    from a sk q ps sk2 c obtain x t where pv: "parse_value s3 = Some (x, t)"
      by (subst (asm) parse_members.simps) (auto split: option.splits)
    have lt: "length t < length s3" using "3.IH"(1)[OF sk q ps refl sk2 c] pv by simp
    from a sk q ps sk2 c pv obtain d ds where sk3: "skip_ws t = d # ds"
      by (subst (asm) parse_members.simps) (auto split: list.splits)
    have ld: "length ds < length t" using sk3 by (rule skip_ws_Cons_length)
    show "length r < length s"
    proof (cases "d = 44")
      case True
      with a sk q ps sk2 c pv sk3 have "parse_members (AList.update k x acc) ds = Some (v, r)"
        and "length ds < length s"
        by (subst (asm) parse_members.simps, simp split: if_splits)+
      then have "length r < length ds"
        using "3.IH"(2)[OF sk q ps refl sk2 c pv refl sk3 True] by simp
      with \<open>length ds < length s\<close> show ?thesis by simp
    next
      case False
      with a sk q ps sk2 c pv sk3 have "r = ds"
        by (subst (asm) parse_members.simps) (simp split: if_splits)
      with lt ld c show ?thesis by simp
    qed
  qed
qed

lemma parse_elems_unguarded:
  "parse_elems acc s =
     (case parse_value s of
        None \<Rightarrow> None
      | Some (v, r) \<Rightarrow>
          (case skip_ws r of
             [] \<Rightarrow> None
           | c # cs \<Rightarrow>
               if c = 44 then parse_elems (acc @ [v]) cs
               else if c = 93 then Some (JArr (acc @ [v]) [], cs)
               else None))"
proof (cases "parse_value s")
  case None
  then show ?thesis by (subst parse_elems.simps) simp
next
  case (Some p)
  obtain v r where p: "p = (v, r)" by (cases p)
  have lr: "length r < length s" using parse_shorter(1) Some p by blast
  show ?thesis
  proof (cases "skip_ws r")
    case Nil
    with Some p show ?thesis by (subst parse_elems.simps) simp
  next
    case (Cons c cs)
    then have "length cs < length s" using skip_ws_Cons_length[OF Cons] lr by simp
    with Some p Cons show ?thesis by (subst parse_elems.simps) simp
  qed
qed

lemma parse_members_unguarded:
  "parse_members acc s =
     (case skip_ws s of
        [] \<Rightarrow> None
      | q # s1 \<Rightarrow>
          if q = 34 then
            (case parse_str s1 of
               None \<Rightarrow> None
             | Some (k, s2) \<Rightarrow>
                 (case skip_ws s2 of
                    [] \<Rightarrow> None
                  | c # s3 \<Rightarrow>
                      if c = 58 then
                        (case parse_value s3 of
                           None \<Rightarrow> None
                         | Some (v, r) \<Rightarrow>
                             (case skip_ws r of
                                [] \<Rightarrow> None
                              | d # ds \<Rightarrow>
                                  if d = 44 then parse_members (AList.update k v acc) ds
                                  else if d = 125 then Some (JObj (AList.update k v acc), ds)
                                  else None))
                      else None))
          else None)"
proof -
  have g1: "length s3 < length s"
    if "skip_ws s = q # s1" "parse_str s1 = Some (k, s2)" "skip_ws s2 = c # s3" for q s1 k s2 c s3
    using skip_ws_Cons_length[OF that(1)] parse_str_shorter[OF that(2)]
      skip_ws_Cons_length[OF that(3)] by simp
  have g2: "length ds < length s"
    if "skip_ws s = q # s1" "parse_str s1 = Some (k, s2)" "skip_ws s2 = c # s3"
      "parse_value s3 = Some (v, r)" "skip_ws r = d # ds" for q s1 k s2 c s3 v r d ds
    using g1[OF that(1-3)] parse_shorter(1)[of s3 v r] that(4) skip_ws_Cons_length[OF that(5)]
    by simp
  show ?thesis
    by (subst parse_members.simps)
       (auto split: list.splits option.splits simp: g1 g2)
qed


subsection \<open>The values that the parser yields\<close>

lemma dec_canon_idem: "dec_canon m e = (m', e') \<Longrightarrow> dec_canon m' e' = (m', e')"
proof -
  assume a: "dec_canon m e = (m', e')"
  then have c: "e' \<le> 0 \<and> (e' < 0 \<longrightarrow> m' mod 10 \<noteq> 0)" by (rule dec_canon_canon)
  then have "dec_canon m' (- int (nat (- e'))) = (m', - int (nat (- e')))"
    by (intro dec_canon_fix) auto
  with c show ?thesis by simp
qed

lemma parse_number_json: "parse_number s = Some (v, r) \<Longrightarrow> json_value v"
  by (auto simp: parse_number_def parse_unsigned_def Let_def dec_canon_idem
           split: list.splits if_splits option.splits prod.splits)

lemma parse_word_json: "parse_word w x s = Some (v, r) \<Longrightarrow> json_value x \<Longrightarrow> json_value v"
  by (auto simp: parse_word_def split: if_splits)

lemma json_elems_snoc: "json_elems (xs @ [x]) = (json_elems xs \<and> json_value x)"
  by (induction xs) auto

lemma json_members_update:
  "json_members acc \<Longrightarrow> json_value v \<Longrightarrow> json_members (AList.update k v acc)"
proof (induction acc)
  case Nil
  then show ?case by simp
next
  case (Cons a acc)
  obtain k' b where a: "a = (k', b)" by (cases a)
  show ?case
  proof (cases "k' = k")
    case True
    then show ?thesis using Cons.prems a by simp
  next
    case False
    have "k' \<notin> fst ` set (AList.update k v acc)"
      using Cons.prems(1) a False by (simp add: dom_update)
    then show ?thesis using Cons a False by simp
  qed
qed

text \<open>What \<^verbatim>\<open>JSON.parse\<close> returns is a JSON value.\<close>

lemma parse_json:
  shows "parse_value s = Some (v, r) \<longrightarrow> json_value v"
    and "json_elems acc \<longrightarrow> parse_elems acc s = Some (v, r) \<longrightarrow> json_value v"
    and "json_members macc \<longrightarrow> parse_members macc s = Some (v, r) \<longrightarrow> json_value v"
proof (induction s and acc s and macc s arbitrary: v r and v r and v r
       rule: parse_value_parse_elems_parse_members.induct)
  case (1 s)
  show ?case
  proof
    assume a: "parse_value s = Some (v, r)"
    then obtain c cs where sk: "skip_ws s = c # cs"
      by (subst (asm) parse_value.simps) (auto split: list.splits)
    consider (obj) "c = 123" | (arr) "c = 91" "c \<noteq> 123" | (str) "c = 34"
      | (other) "c \<noteq> 123" "c \<noteq> 91" "c \<noteq> 34"
      by blast
    then show "json_value v"
    proof cases
      case obj
      with a sk obtain d ds where d: "skip_ws cs = d # ds"
        by (subst (asm) parse_value.simps) (auto split: list.splits)
      show ?thesis
      proof (cases "d = 125")
        case True
        with a sk obj d have "v = JObj []" by (subst (asm) parse_value.simps) simp
        then show ?thesis by simp
      next
        case False
        with a sk obj d have "parse_members [] (d # ds) = Some (v, r)"
          by (subst (asm) parse_value.simps) simp
        then show ?thesis
          using "1.IH"(1)[OF sk obj d False] by simp
      qed
    next
      case arr
      with a sk obtain d ds where d: "skip_ws cs = d # ds"
        by (subst (asm) parse_value.simps) (auto split: list.splits)
      show ?thesis
      proof (cases "d = 93")
        case True
        with a sk arr d have "v = JArr [] []" by (subst (asm) parse_value.simps) simp
        then show ?thesis by simp
      next
        case False
        with a sk arr d have "parse_elems [] (d # ds) = Some (v, r)"
          by (subst (asm) parse_value.simps) simp
        then show ?thesis
          using "1.IH"(2)[OF sk arr(2) arr(1) d False] by simp
      qed
    next
      case str
      with a sk obtain t where "v = JStr t"
        by (subst (asm) parse_value.simps) (auto split: option.splits)
      then show ?thesis by simp
    next
      case other
      with a sk have "parse_number (c # cs) = Some (v, r)
          \<or> parse_word (lit ''true'') (JBool True) (c # cs) = Some (v, r)
          \<or> parse_word (lit ''false'') (JBool False) (c # cs) = Some (v, r)
          \<or> parse_word (lit ''null'') JNull (c # cs) = Some (v, r)"
        by (subst (asm) parse_value.simps) (auto split: if_splits)
      then show ?thesis
        using parse_number_json[of "c # cs" v r]
          parse_word_json[of "lit ''true''" "JBool True" "c # cs" v r]
          parse_word_json[of "lit ''false''" "JBool False" "c # cs" v r]
          parse_word_json[of "lit ''null''" JNull "c # cs" v r]
        by (auto simp del: list.map)
    qed
  qed
next
  case (2 acc s)
  show ?case
  proof (intro impI)
    assume acc: "json_elems acc" and a: "parse_elems acc s = Some (v, r)"
    then obtain x t where pv: "parse_value s = Some (x, t)"
      by (subst (asm) parse_elems.simps) (auto split: option.splits)
    have jx: "json_value x" using "2.IH"(1) pv by simp
    from a pv obtain c cs where sk: "skip_ws t = c # cs"
      by (subst (asm) parse_elems.simps) (auto split: list.splits)
    show "json_value v"
    proof (cases "c = 44")
      case True
      with a pv sk have "parse_elems (acc @ [x]) cs = Some (v, r)"
        by (subst (asm) parse_elems.simps) (simp split: if_splits)
      then show ?thesis
        using "2.IH"(2)[OF pv refl sk True] acc jx a pv sk True
        by (subst (asm) (2) parse_elems.simps) (simp add: json_elems_snoc split: if_splits)
    next
      case False
      with a pv sk have "v = JArr (acc @ [x]) []"
        by (subst (asm) parse_elems.simps) (simp split: if_splits)
      then show ?thesis using acc jx by (simp add: json_elems_snoc)
    qed
  qed
next
  case (3 acc s)
  show ?case
  proof (intro impI)
    assume acc: "json_members acc" and a: "parse_members acc s = Some (v, r)"
    then obtain q s1 where sk: "skip_ws s = q # s1"
      by (subst (asm) parse_members.simps) (auto split: list.splits)
    from a sk have q: "q = 34"
      by (subst (asm) parse_members.simps) (auto split: if_splits)
    from a sk q obtain k s2 where ps: "parse_str s1 = Some (k, s2)"
      by (subst (asm) parse_members.simps) (auto split: option.splits)
    from a sk q ps obtain c s3 where sk2: "skip_ws s2 = c # s3"
      by (subst (asm) parse_members.simps) (auto split: list.splits)
    from a sk q ps sk2 have c: "c = 58 \<and> length s3 < length s"
      by (subst (asm) parse_members.simps) (auto split: if_splits)
    from a sk q ps sk2 c obtain x t where pv: "parse_value s3 = Some (x, t)"
      by (subst (asm) parse_members.simps) (auto split: option.splits)
    have jx: "json_value x" using "3.IH"(1)[OF sk q ps refl sk2 c] pv by simp
    have ju: "json_members (AList.update k x acc)" using acc jx by (rule json_members_update)
    from a sk q ps sk2 c pv obtain d ds where sk3: "skip_ws t = d # ds"
      by (subst (asm) parse_members.simps) (auto split: list.splits)
    show "json_value v"
    proof (cases "d = 44")
      case True
      with a sk q ps sk2 c pv sk3 have "parse_members (AList.update k x acc) ds = Some (v, r)"
        and "length ds < length s"
        by (subst (asm) parse_members.simps, simp split: if_splits)+
      then show ?thesis
        using "3.IH"(2)[OF sk q ps refl sk2 c pv refl sk3 True] ju by simp
    next
      case False
      with a sk q ps sk2 c pv sk3 have "v = JObj (AList.update k x acc)"
        by (subst (asm) parse_members.simps) (simp split: if_splits)
      then show ?thesis using ju by simp
    qed
  qed
qed









lemma JSON_parse_json: "JSON_parse t = Inr v \<Longrightarrow> json_value v"
  using parse_json(1) by (auto simp: JSON_parse_def split: option.splits prod.splits if_splits)

lemma JSON_parse_defined: "JSON_parse t = Inr v \<Longrightarrow> v \<noteq> JUndef"
  using JSON_parse_json by fastforce

section \<open>Properties of the save\<close>

lemma parse_or_text_defined: "parse_or_text t \<noteq> JUndef"
  using JSON_parse_defined by (auto simp: parse_or_text_def split: sum.splits)

lemma new_value_text_defined: "new_value_text s \<noteq> JUndef"
  by (simp add: new_value_text_def parse_or_text_defined)

lemma assign_not_nullish: "\<not> nullish obj \<Longrightarrow> \<not> nullish (assign obj k x)"
  using setProp_not_nullish[of obj k x] by (auto simp: assign_def split: sum.splits)

lemma foldl_assign_not_nullish:
  "\<not> nullish obj \<Longrightarrow> \<not> nullish (foldl (\<lambda>obj (k, v). assign obj k (f v)) obj fs)"
  by (induction fs arbitrary: obj) (auto simp: assign_not_nullish)

lemma new_value_fields_defined: "new_value_fields s \<noteq> JUndef"
proof (cases "editedSingleValue s")
  case None
  have "\<not> nullish (foldl (\<lambda>obj (k, v). assign obj k (parse_or_text v)) (JObj []) (editedFields s))"
    by (rule foldl_assign_not_nullish) simp
  then show ?thesis using None by (auto simp: new_value_fields_def)
next
  case (Some t)
  then show ?thesis by (simp add: new_value_fields_def parse_or_text_defined)
qed

text \<open>
  The keys \<^verbatim>\<open>details\<close> and \<^verbatim>\<open>nutrients\<close> are plain names: no position of an array, not
  \<^verbatim>\<open>length\<close>, not \<^verbatim>\<open>__proto__\<close>. A plain name is found as a data property that can be
  written, or not at all, and an assignment to it on an object does not throw.
\<close>

lemma kept_keys_plain:
  "k = lit ''details'' \<or> k = lit ''nutrients'' \<Longrightarrow>
   array_index k = None \<and> k \<noteq> lit ''length'' \<and> k \<noteq> lit ''__proto__''"
  by (auto simp: array_index_def is_digit_def)

lemma find_in_plain:
  "array_index k = None \<Longrightarrow> k \<noteq> lit ''length'' \<Longrightarrow> k \<noteq> lit ''__proto__'' \<Longrightarrow>
   (\<exists>x. find_in v k = Data x) \<or> find_in v k = Absent"
  by (induction v k rule: find_in.induct) (auto split: option.splits)

lemma define_own_plain:
  "array_index k = None \<Longrightarrow> k \<noteq> lit ''length'' \<Longrightarrow>
   \<exists>v'. define_own v k x = Inr v' \<and> (is_object v \<longrightarrow> is_object v')"
  by (induction v k x rule: define_own.induct) auto

lemma setProp_found:
  "\<not> nullish v \<Longrightarrow> \<forall>pr. v \<noteq> JProto pr \<Longrightarrow>
   setProp v k x =
     (case find_in v k of
        Accessor \<Rightarrow>
          Inr (if is_object v \<and> (is_object x \<or> x = JNull) then set_proto v x else v)
      | ReadOnly y \<Rightarrow> Inl TypeError
      | Data y \<Rightarrow> if is_object v then define_own v k x else Inl TypeError
      | Absent \<Rightarrow> if is_object v then define_own v k x else Inl TypeError)"
  by (cases v) (auto split: found.splits)

lemma setProp_plain:
  assumes "is_object v" "array_index k = None" "k \<noteq> lit ''length''" "k \<noteq> lit ''__proto__''"
  shows "\<exists>v'. setProp v k x = Inr v' \<and> is_object v'"
proof (cases "\<exists>pr. v = JProto pr")
  case True
  then show ?thesis using assms by (auto simp: set_builtin_def)
next
  case False
  have "setProp v k x = define_own v k x"
    using find_in_plain[OF assms(2,3,4), of v] setProp_found[of v k x] False assms(1)
      object_not_nullish[OF assms(1)]
    by auto
  then show ?thesis using define_own_plain[OF assms(2,3), of v x] assms(1) by auto
qed

lemma typeof_is_object: "typeof_object v \<and> v \<noteq> JNull \<longleftrightarrow> is_object v"
  by (cases v) auto

lemma carry_total:
  assumes "is_object ev" "is_object nv" "k = lit ''details'' \<or> k = lit ''nutrients''"
  shows "\<exists>nv'. carry k ev nv = Inr nv' \<and> is_object nv'"
proof -
  obtain old where old: "getProp ev k = Inr old"
    using assms(1) getProp_not_nullish object_not_nullish by blast
  obtain new where new: "getProp nv k = Inr new"
    using assms(2) getProp_not_nullish object_not_nullish by blast
  have kp: "array_index k = None" "k \<noteq> lit ''length''" "k \<noteq> lit ''__proto__''"
    using kept_keys_plain[OF assms(3)] by simp_all
  obtain nv' where "setProp nv k old = Inr nv'" "is_object nv'"
    using setProp_plain[OF assms(2) kp, of old] by blast
  then show ?thesis using old new assms(2) by (auto simp: carry_def)
qed

lemma preserve_total: "\<exists>nv'. preserve ev nv = Inr nv' \<and> (nv \<noteq> JUndef \<longrightarrow> nv' \<noteq> JUndef)"
proof (cases "truthy ev \<and> is_object ev \<and> is_object nv")
  case True
  then obtain n1 where n1: "carry (lit ''details'') ev nv = Inr n1" "is_object n1"
    using carry_total by blast
  then obtain n2 where n2: "carry (lit ''nutrients'') ev n1 = Inr n2" "is_object n2"
    using carry_total True by blast
  have "preserve ev nv = Inr n2"
    using True n1 n2 typeof_is_object unfolding preserve_def by (auto simp del: map_map list.map)
  moreover have "n2 \<noteq> JUndef" using n2(2) by auto
  ultimately show ?thesis by blast
next
  case False
  then have "preserve ev nv = Inr nv" using typeof_is_object unfolding preserve_def by auto
  then show ?thesis by blast
qed

lemma setAtPath_defined: "setAtPath obj path v = Inr out \<Longrightarrow> v \<noteq> JUndef \<Longrightarrow> out \<noteq> JUndef"
  using set_loop_not_nullish by (fastforce simp: setAtPath_def split: option.splits if_splits)

lemma patch_document_defined:
  "patch_document current path v = Inr updated \<Longrightarrow> v \<noteq> JUndef \<Longrightarrow> updated \<noteq> JUndef"
proof -
  assume a: "patch_document current path v = Inr updated" and v: "v \<noteq> JUndef"
  from a obtain parsed ev nv where "preserve ev v = Inr nv" "setAtPath parsed path nv = Inr updated"
    by (auto simp: patch_document_def split: sum.splits)
  moreover from this v have "nv \<noteq> JUndef" using preserve_total[of ev v] by auto
  ultimately show ?thesis using setAtPath_defined by blast
qed

text \<open>
  The patch throws in two ways only: the current text does not parse, or an assignment
  of \<^verbatim>\<open>setAtPath\<close> throws. Reading the existing value and keeping \<^verbatim>\<open>details\<close> and
  \<^verbatim>\<open>nutrients\<close> never throw.
\<close>

lemma patch_document_throws:
  "patch_document current path v = Inl e \<longleftrightarrow>
     JSON_parse current = Inl e
     \<or> (\<exists>parsed existing v'.
           JSON_parse current = Inr parsed \<and> getAtPath parsed path = Inr existing
           \<and> preserve existing v = Inr v' \<and> setAtPath parsed path v' = Inl e)"
proof (cases "JSON_parse current")
  case (Inl e')
  then show ?thesis by (simp add: patch_document_def)
next
  case (Inr parsed)
  obtain existing where ex: "getAtPath parsed path = Inr existing"
    using getAtPath_returns by blast
  obtain v' where v': "preserve existing v = Inr v'"
    using preserve_total by blast
  show ?thesis using Inr ex v' by (simp add: patch_document_def)
qed

lemma save_document_Inl:
  "patch_document (contents s) (node_path nd) v = Inl e \<Longrightarrow> save_document graph s nd v = Inl e"
  by (simp add: save_document_def)

text \<open>
  C10. Take a save attempt, in either variant, with a node selected. If the statements
  that fetch and parse the current text and patch the document at the path of the node
  throw, that is, if \<open>patch_document\<close> gives an exception (\<open>patch_document_throws\<close>
  says when), then the text of the file store, its flag, the text of the JSON store,
  and the nodes and the selection of the graph store are what they were.
\<close>

theorem stores_unchanged_on_throw:
  "selectedNode s = Some nd \<Longrightarrow>
   (patch_document (contents s) (node_path nd) (new_value_text s) = Inl e \<longrightarrow>
      contents (handleSave_text graph s) = contents s
      \<and> hasChanges (handleSave_text graph s) = hasChanges s
      \<and> json (handleSave_text graph s) = json s
      \<and> nodes (handleSave_text graph s) = nodes s
      \<and> selectedNode (handleSave_text graph s) = selectedNode s)
   \<and> (patch_document (contents s) (node_path nd) (new_value_fields s) = Inl e \<longrightarrow>
      contents (handleSave_fields graph s) = contents s
      \<and> hasChanges (handleSave_fields graph s) = hasChanges s
      \<and> json (handleSave_fields graph s) = json s
      \<and> nodes (handleSave_fields graph s) = nodes s
      \<and> selectedNode (handleSave_fields graph s) = selectedNode s)"
proof (intro conjI impI)
  assume nd: "selectedNode s = Some nd"
    and t: "patch_document (contents s) (node_path nd) (new_value_text s) = Inl e"
  have "handleSave_text graph s = s\<lparr>console := console s @ [e]\<rparr>"
    using nd save_document_Inl[OF t, of graph] by (simp add: handleSave_text_def)
  then show "contents (handleSave_text graph s) = contents s"
    "hasChanges (handleSave_text graph s) = hasChanges s"
    "json (handleSave_text graph s) = json s"
    "nodes (handleSave_text graph s) = nodes s"
    "selectedNode (handleSave_text graph s) = selectedNode s"
    by simp_all
next
  assume nd: "selectedNode s = Some nd"
    and t: "patch_document (contents s) (node_path nd) (new_value_fields s) = Inl e"
  have "handleSave_fields graph s = s\<lparr>console := console s @ [e]\<rparr>"
    using nd save_document_Inl[OF t, of graph] by (simp add: handleSave_fields_def)
  then show "contents (handleSave_fields graph s) = contents s"
    "hasChanges (handleSave_fields graph s) = hasChanges s"
    "json (handleSave_fields graph s) = json s"
    "nodes (handleSave_fields graph s) = nodes s"
    "selectedNode (handleSave_fields graph s) = selectedNode s"
    by simp_all
qed

text \<open>C10 on a text that does not parse, and on a path that leads through a number.\<close>

theorem stores_unchanged_on_throw_witness:
  "selectedNode broken_state = Some fruit_node
   \<and> patch_document (contents broken_state) (node_path fruit_node) (new_value_text broken_state)
       = Inl SyntaxError
   \<and> contents (handleSave_text sample_graph broken_state) = contents broken_state
   \<and> hasChanges (handleSave_text sample_graph broken_state) = hasChanges broken_state
   \<and> json (handleSave_text sample_graph broken_state) = json broken_state
   \<and> selectedNode number_state = Some name_node
   \<and> patch_document (contents number_state) (node_path name_node) (new_value_fields number_state)
       = Inl TypeError
   \<and> contents (handleSave_fields sample_graph number_state) = contents number_state
   \<and> hasChanges (handleSave_fields sample_graph number_state) = hasChanges number_state
   \<and> json (handleSave_fields sample_graph number_state) = json number_state"
proof -
  have h1: "selectedNode broken_state = Some fruit_node" by code_simp
  have h2: "patch_document (contents broken_state) (node_path fruit_node)
              (new_value_text broken_state) = Inl SyntaxError" by code_simp
  have h3: "selectedNode number_state = Some name_node" by code_simp
  have h4: "patch_document (contents number_state) (node_path name_node)
              (new_value_fields number_state) = Inl TypeError" by code_simp
  show ?thesis
    using h1 h2 h3 h4
      stores_unchanged_on_throw[OF h1, of SyntaxError sample_graph]
      stores_unchanged_on_throw[OF h3, of TypeError sample_graph]
    by simp
qed

text \<open>
  C2, run on the code. The current text of \<open>broken_state\<close> does not parse, so the
  \<^verbatim>\<open>try\<close> block throws; the \<^verbatim>\<open>catch\<close> block writes the error to the console and that is
  all: after \<^verbatim>\<open>handleSave\<close> the component is still in edit mode and still holds the
  text typed. The same in the other variant, where the patch throws.
\<close>

theorem catch_leaves_edit_mode:
  "editing broken_state = True
   \<and> patch_document (contents broken_state) (Some [Key (lit ''fruit'')]) (new_value_text broken_state)
       = Inl SyntaxError
   \<and> editing (handleSave_text sample_graph broken_state) = True
   \<and> editedText (handleSave_text sample_graph broken_state) = lit ''{\"name\": \"Pear\"}''
   \<and> console (handleSave_text sample_graph broken_state) = [SyntaxError]
   \<and> editing (handleSave_fields sample_graph number_state) = True
   \<and> editedSingleValue (handleSave_fields sample_graph number_state) = Some (lit ''Pear'')
   \<and> console (handleSave_fields sample_graph number_state) = [TypeError]"
  by code_simp

lemma getAtPath_below:
  assumes "getAtPath out path = Inr v" and "is_container v"
  shows "getAtPath out (Some (path_segs path @ [Key k])) = getProp v k"
proof -
  have nn: "\<not> nullish v" using assms(2) by (rule container_not_nullish)
  have "get_loop out (path_segs path) = Inr v"
    using assms(1) by (auto simp: getAtPath_def path_segs_def split: option.splits if_splits)
  then have "get_loop out (path_segs path @ [Key k]) = get_loop v [Key k]"
    by (simp add: get_loop_append)
  also have "\<dots> = getProp v k" using nn by (simp split: sum.splits)
  finally show ?thesis by (simp add: getAtPath_def)
qed


lemma save_document_writes:
  assumes "patch_document (contents s) (node_path nd) v = Inr updated" and "v \<noteq> JUndef"
  shows "\<exists>s1. save_document graph s nd v = Inr s1
           \<and> JSON_stringify 2 updated = Some (contents s1)
           \<and> json s1 = contents s1 \<and> hasChanges s1
           \<and> nodes s1 = graph (contents s1)
           \<and> selectedNode s1 =
               (case find (\<lambda>n. findPath (node_path n) = findPath (node_path nd)) (graph (contents s1)) of
                  None \<Rightarrow> selectedNode s | Some target \<Rightarrow> Some target)
           \<and> editing s1 = editing s \<and> editedText s1 = editedText s
           \<and> editedFields s1 = editedFields s \<and> editedSingleValue s1 = editedSingleValue s
           \<and> console s1 = console s"
proof -
  have "updated \<noteq> JUndef" using assms by (rule patch_document_defined)
  then obtain t where t: "JSON_stringify 2 updated = Some t"
    by (auto simp: JSON_stringify_def)
  show ?thesis
    using assms(1) t
    by (cases "find (\<lambda>n. findPath (node_path n) = findPath (node_path nd)) (graph t)")
       (simp_all add: save_document_def Let_def)
qed

lemma handleSave_text_writes:
  assumes "selectedNode s = Some nd"
    and "patch_document (contents s) (node_path nd) (new_value_text s) = Inr updated"
  shows "JSON_stringify 2 updated = Some (contents (handleSave_text graph s))
         \<and> json (handleSave_text graph s) = contents (handleSave_text graph s)
         \<and> hasChanges (handleSave_text graph s)
         \<and> nodes (handleSave_text graph s) = graph (contents (handleSave_text graph s))
         \<and> selectedNode (handleSave_text graph s) =
             (case find (\<lambda>n. findPath (node_path n) = findPath (node_path nd))
                        (graph (contents (handleSave_text graph s))) of
                None \<Rightarrow> selectedNode s | Some target \<Rightarrow> Some target)
         \<and> editing (handleSave_text graph s) = False
         \<and> console (handleSave_text graph s) = console s"
proof -
  obtain s1 where s1: "save_document graph s nd (new_value_text s) = Inr s1"
    and rest: "JSON_stringify 2 updated = Some (contents s1)" "json s1 = contents s1" "hasChanges s1"
      "nodes s1 = graph (contents s1)"
      "selectedNode s1 = (case find (\<lambda>n. findPath (node_path n) = findPath (node_path nd)) (graph (contents s1)) of
                  None \<Rightarrow> selectedNode s | Some target \<Rightarrow> Some target)"
      "console s1 = console s"
    using save_document_writes[OF assms(2) new_value_text_defined, of graph] by blast
  have "handleSave_text graph s = s1\<lparr>editing := False, editedText := []\<rparr>"
    using assms(1) s1 by (simp add: handleSave_text_def)
  with rest show ?thesis by simp
qed

lemma handleSave_fields_writes:
  assumes "selectedNode s = Some nd"
    and "patch_document (contents s) (node_path nd) (new_value_fields s) = Inr updated"
  shows "JSON_stringify 2 updated = Some (contents (handleSave_fields graph s))
         \<and> json (handleSave_fields graph s) = contents (handleSave_fields graph s)
         \<and> hasChanges (handleSave_fields graph s)
         \<and> nodes (handleSave_fields graph s) = graph (contents (handleSave_fields graph s))
         \<and> selectedNode (handleSave_fields graph s) =
             (case find (\<lambda>n. findPath (node_path n) = findPath (node_path nd))
                        (graph (contents (handleSave_fields graph s))) of
                None \<Rightarrow> selectedNode s | Some target \<Rightarrow> Some target)
         \<and> editing (handleSave_fields graph s) = False
         \<and> console (handleSave_fields graph s) = console s"
proof -
  obtain s1 where s1: "save_document graph s nd (new_value_fields s) = Inr s1"
    and rest: "JSON_stringify 2 updated = Some (contents s1)" "json s1 = contents s1" "hasChanges s1"
      "nodes s1 = graph (contents s1)"
      "selectedNode s1 = (case find (\<lambda>n. findPath (node_path n) = findPath (node_path nd)) (graph (contents s1)) of
                  None \<Rightarrow> selectedNode s | Some target \<Rightarrow> Some target)"
      "console s1 = console s"
    using save_document_writes[OF assms(2) new_value_fields_defined, of graph] by blast
  have "handleSave_fields graph s =
          s1\<lparr>editing := False, editedText := [], editedFields := [], editedSingleValue := None\<rparr>"
    using assms(1) s1 by (simp add: handleSave_fields_def)
  with rest show ?thesis by simp
qed

text \<open>What the patch does, step by step.\<close>

lemma patch_document_steps:
  assumes "patch_document current path v = Inr updated"
  shows "\<exists>parsed existing v'.
           JSON_parse current = Inr parsed \<and> getAtPath parsed path = Inr existing
           \<and> preserve existing v = Inr v' \<and> setAtPath parsed path v' = Inr updated
           \<and> (in_document parsed (path_segs path) \<longrightarrow> getAtPath updated path = Inr v')"
proof -
  obtain parsed existing v' where st:
      "JSON_parse current = Inr parsed" "getAtPath parsed path = Inr existing"
      "preserve existing v = Inr v'" "setAtPath parsed path v' = Inr updated"
    using assms by (auto simp: patch_document_def split: sum.splits)
  have "getAtPath updated path = Inr v'" if "in_document parsed (path_segs path)"
  proof -
    have "setAtPath parsed path v' = Inr (put_at parsed (path_segs path) v')"
      using JSON_parse_json[OF st(1)] that by (rule setAtPath_put_at)
    then have "updated = put_at parsed (path_segs path) v'" using st(4) by simp
    then show ?thesis using getAtPath_put_at[OF that] by simp
  qed
  with st show ?thesis by blast
qed






lemma lookup_update: "lookup (AList.update k v ps) k' = (if k' = k then v else lookup ps k')"
  by (simp add: lookup_def update_conv')

lemma getProp_obj: "k \<noteq> lit ''__proto__'' \<Longrightarrow> getProp (JObj ps) k = Inr (lookup ps k)"
  by (simp add: getProp_def lookup_def split: option.splits)

lemma setProp_obj:
  "k \<noteq> lit ''__proto__'' \<Longrightarrow> setProp (JObj ps) k x = Inr (JObj (AList.update k x ps))"
  by (simp split: option.splits)

lemma carry_obj:
  "k = lit ''details'' \<or> k = lit ''nutrients'' \<Longrightarrow> getProp ev k = Inr d \<Longrightarrow>
   carry k ev (JObj ps) =
     Inr (JObj (if truthy d \<and> lookup ps k = JUndef then AList.update k d ps else ps))"
proof -
  assume k: "k = lit ''details'' \<or> k = lit ''nutrients''" and d: "getProp ev k = Inr d"
  have kp: "k \<noteq> lit ''__proto__''" using kept_keys_plain[OF k] by simp
  show ?thesis
    using d by (simp add: carry_def getProp_obj[OF kp] setProp_obj[OF kp] del: setProp.simps list.map)
qed

lemma preserve_obj:
  assumes "is_container ev"
  shows "\<exists>ps'. preserve ev (JObj ps) = Inr (JObj ps')
           \<and> (\<forall>k d. (k = lit ''details'' \<or> k = lit ''nutrients'') \<and> getProp ev k = Inr d
                      \<and> truthy d \<and> lookup ps k = JUndef \<longrightarrow> lookup ps' k = d)"
proof -
  obtain d1 where d1: "getProp ev (lit ''details'') = Inr d1"
    using assms getProp_not_nullish container_not_nullish by blast
  obtain d2 where d2: "getProp ev (lit ''nutrients'') = Inr d2"
    using assms getProp_not_nullish container_not_nullish by blast
  let ?ps1 = "if truthy d1 \<and> lookup ps (lit ''details'') = JUndef
              then AList.update (lit ''details'') d1 ps else ps"
  let ?ps2 = "if truthy d2 \<and> lookup ?ps1 (lit ''nutrients'') = JUndef
              then AList.update (lit ''nutrients'') d2 ?ps1 else ?ps1"
  have g: "truthy ev \<and> typeof_object ev \<and> ev \<noteq> JNull" using assms by (cases ev) auto
  have c1: "carry (lit ''details'') ev (JObj ps) = Inr (JObj ?ps1)"
    using carry_obj[OF _ d1, of ps] by (simp del: list.map)
  have c2: "carry (lit ''nutrients'') ev (JObj ?ps1) = Inr (JObj ?ps2)"
    using carry_obj[OF _ d2, of ?ps1] by (simp del: list.map)
  have "preserve ev (JObj ps) = Inr (JObj ?ps2)"
    unfolding preserve_def using g c1 c2 by (simp del: list.map)
  moreover have "lookup ?ps2 (lit ''details'') = d1"
    if "truthy d1" "lookup ps (lit ''details'') = JUndef"
    using that by (simp add: lookup_update del: list.map)
  moreover have "lookup ?ps2 (lit ''nutrients'') = d2"
    if "truthy d2" "lookup ps (lit ''nutrients'') = JUndef"
    using that by (simp add: lookup_update del: list.map)
  ultimately show ?thesis using d1 d2 by (intro exI[of _ ?ps2]) (auto simp del: list.map)
qed

text \<open>
  An existing value that is an array or object stands at a position of the parsed
  document, so the new value is read again at the path once it has been assigned.
\<close>

lemma existing_in_document:
  assumes "JSON_parse current = Inr parsed" "getAtPath parsed path = Inr existing"
    and "is_container existing"
  shows "in_document parsed (path_segs path)"
proof -
  have "get_loop parsed (path_segs path) = Inr existing"
    using assms(2) by (auto simp: getAtPath_def path_segs_def split: option.splits if_splits)
  then show ?thesis
    using container_in_document[OF JSON_parse_json[OF assms(1)] _ assms(3)] by simp
qed

lemma patch_document_carries:
  assumes k: "k = lit ''details'' \<or> k = lit ''nutrients''"
    and parsed: "JSON_parse current = Inr parsed"
    and existing: "getAtPath parsed path = Inr existing" "is_container existing"
    and d: "getProp existing k = Inr d" "truthy d"
    and new: "lookup ps k = JUndef"
    and upd: "patch_document current path (JObj ps) = Inr updated"
  shows "getAtPath updated (Some (path_segs path @ [Key k])) = Inr d"
proof -
  obtain ps' where p: "preserve existing (JObj ps) = Inr (JObj ps')" and l: "lookup ps' k = d"
    using preserve_obj[OF existing(2), of ps] k d new by blast
  have ind: "in_document parsed (path_segs path)"
    using parsed existing by (rule existing_in_document)
  have "getAtPath updated path = Inr (JObj ps')"
    using patch_document_steps[OF upd] parsed existing(1) p ind by auto
  then have "getAtPath updated (Some (path_segs path @ [Key k])) = getProp (JObj ps') k"
    by (rule getAtPath_below) simp
  with l show ?thesis using kept_keys_plain[OF k] by (simp add: getProp_obj)
qed

text \<open>
  C1, as the code has it. Take a save that completes, in either variant, where the
  existing value at the path of the node is an array or object and the new value is
  a plain object \<open>JObj ps\<close>. For \<open>k\<close> one of \<^verbatim>\<open>details\<close> and \<^verbatim>\<open>nutrients\<close>: if the existing
  value has a truthy \<open>k\<close> and the new value has none, then the document \<open>updated\<close>,
  whose text the stores receive, has the existing \<open>k\<close> at the path of the node.
\<close>

theorem details_carried_over:
  "selectedNode s = Some nd \<Longrightarrow>
   k = lit ''details'' \<or> k = lit ''nutrients'' \<Longrightarrow>
   JSON_parse (contents s) = Inr parsed \<Longrightarrow>
   getAtPath parsed (node_path nd) = Inr existing \<Longrightarrow>
   is_container existing \<Longrightarrow>
   getProp existing k = Inr d \<Longrightarrow>
   truthy d \<Longrightarrow>
   lookup ps k = JUndef \<Longrightarrow>
   (new_value_text s = JObj ps
      \<and> patch_document (contents s) (node_path nd) (new_value_text s) = Inr updated \<longrightarrow>
      getAtPath updated (Some (path_segs (node_path nd) @ [Key k])) = Inr d
      \<and> JSON_stringify 2 updated = Some (contents (handleSave_text graph s)))
   \<and> (new_value_fields s = JObj ps
      \<and> patch_document (contents s) (node_path nd) (new_value_fields s) = Inr updated \<longrightarrow>
      getAtPath updated (Some (path_segs (node_path nd) @ [Key k])) = Inr d
      \<and> JSON_stringify 2 updated = Some (contents (handleSave_fields graph s)))"
  using patch_document_carries[of k "contents s" parsed "node_path nd" existing d ps updated]
    handleSave_text_writes[of s nd updated graph] handleSave_fields_writes[of s nd updated graph]
  by (auto simp del: list.map)

text \<open>C1 as amended, on \<open>merge_state\<close>.\<close>

theorem details_carried_over_witness:
  "selectedNode merge_state = Some fruit_node
   \<and> JSON_parse (contents merge_state)
       = Inr (JObj [(lit ''fruit'', JObj [(lit ''name'', JStr (lit ''Apple'')), (lit ''details'', red)])])
   \<and> getAtPath (JObj [(lit ''fruit'', JObj [(lit ''name'', JStr (lit ''Apple'')), (lit ''details'', red)])])
        (node_path fruit_node)
       = Inr (JObj [(lit ''name'', JStr (lit ''Apple'')), (lit ''details'', red)])
   \<and> getProp (JObj [(lit ''name'', JStr (lit ''Apple'')), (lit ''details'', red)]) (lit ''details'') = Inr red
   \<and> truthy red
   \<and> new_value_text merge_state = JObj [(lit ''name'', JStr (lit ''Pear''))]
   \<and> lookup [(lit ''name'', JStr (lit ''Pear''))] (lit ''details'') = JUndef
   \<and> patch_document (contents merge_state) (node_path fruit_node) (new_value_text merge_state)
       = Inr (JObj [(lit ''fruit'', JObj [(lit ''name'', JStr (lit ''Pear'')), (lit ''details'', red)])])
   \<and> getAtPath (JObj [(lit ''fruit'', JObj [(lit ''name'', JStr (lit ''Pear'')), (lit ''details'', red)])])
        (Some [Key (lit ''fruit''), Key (lit ''details'')]) = Inr red
   \<and> JSON_stringify 2 (JObj [(lit ''fruit'', JObj [(lit ''name'', JStr (lit ''Pear'')), (lit ''details'', red)])])
       = Some (contents (handleSave_text sample_graph merge_state))"
proof -
  let ?E = "JObj [(lit ''name'', JStr (lit ''Apple'')), (lit ''details'', red)]"
  let ?P = "JObj [(lit ''fruit'', ?E)]"
  let ?ps = "[(lit ''name'', JStr (lit ''Pear''))]"
  let ?U = "JObj [(lit ''fruit'', JObj [(lit ''name'', JStr (lit ''Pear'')), (lit ''details'', red)])]"
  have h1: "selectedNode merge_state = Some fruit_node" by code_simp
  have h2: "lit ''details'' = lit ''details'' \<or> lit ''details'' = lit ''nutrients''" by simp
  have h3: "JSON_parse (contents merge_state) = Inr ?P" by code_simp
  have h4: "getAtPath ?P (node_path fruit_node) = Inr ?E" by code_simp
  have h5: "is_container ?E" by simp
  have h6: "getProp ?E (lit ''details'') = Inr red" by code_simp
  have h7: "truthy red" by code_simp
  have h8: "lookup ?ps (lit ''details'') = JUndef" by code_simp
  have h9: "new_value_text merge_state = JObj ?ps" by code_simp
  have h10: "patch_document (contents merge_state) (node_path fruit_node) (new_value_text merge_state) = Inr ?U"
    by code_simp
  have p: "path_segs (node_path fruit_node) @ [Key (lit ''details'')] = [Key (lit ''fruit''), Key (lit ''details'')]"
    by code_simp
  from details_carried_over[OF h1 h2 h3 h4 h5 h6 h7 h8, of ?U sample_graph] h9 h10 p
  have "getAtPath ?U (Some [Key (lit ''fruit''), Key (lit ''details'')]) = Inr red
        \<and> JSON_stringify 2 ?U = Some (contents (handleSave_text sample_graph merge_state))"
    by (simp del: list.map)
  with h1 h3 h4 h6 h7 h8 h9 h10 show ?thesis by (simp del: list.map)
qed

text \<open>
  C1, as the claim has it, fails twice. In \<open>falsy_state\<close> the existing value has
  \<^verbatim>\<open>details\<close>, which are \<^verbatim>\<open>false\<close>, the new value is an object without \<^verbatim>\<open>details\<close>, and
  the value saved at the path has none. In \<open>array_state\<close> the existing value has
  \<^verbatim>\<open>details\<close>, the new value is an array (\<^verbatim>\<open>typeof\<close> says \<^verbatim>\<open>object\<close>), and the value saved
  at the path is the empty array.
\<close>

theorem details_carried_over_counterexample:
  "JSON_parse (contents falsy_state)
     = Inr (JObj [(lit ''fruit'', JObj [(lit ''name'', JStr (lit ''Apple'')), (lit ''details'', JBool False)])])
   \<and> selectedNode falsy_state = Some fruit_node
   \<and> new_value_text falsy_state = pear
   \<and> JSON_parse (contents (handleSave_text sample_graph falsy_state)) = Inr (JObj [(lit ''fruit'', pear)])
   \<and> JSON_parse (contents array_state)
     = Inr (JObj [(lit ''fruit'', JObj [(lit ''name'', JStr (lit ''Apple'')), (lit ''details'', red)])])
   \<and> selectedNode array_state = Some fruit_node
   \<and> new_value_text array_state = JArr [] []
   \<and> JSON_parse (contents (handleSave_text sample_graph array_state)) = Inr (JObj [(lit ''fruit'', JArr [] [])])"
  by code_simp

text \<open>
  The block that keeps \<^verbatim>\<open>details\<close> and \<^verbatim>\<open>nutrients\<close> leaves the new value as it is
  unless the existing and the new value are both arrays or objects: a prototype
  object of the engine holds neither key and records no assignment.
\<close>

lemma carry_from_proto:
  "k = lit ''details'' \<or> k = lit ''nutrients'' \<Longrightarrow> carry k (JProto p) nv = Inr nv"
  by (auto simp: carry_def getProp_def)

lemma carry_to_proto:
  assumes "k = lit ''details'' \<or> k = lit ''nutrients''" "is_object ev"
  shows "carry k ev (JProto pr) = Inr (JProto pr)"
proof -
  obtain old where old: "getProp ev k = Inr old"
    using assms(2) getProp_not_nullish object_not_nullish by blast
  then show ?thesis
    using assms(1) by (auto simp: carry_def getProp_def set_builtin_def)
qed

lemma object_cases: "is_object v \<Longrightarrow> is_container v \<or> (\<exists>p. v = JProto p)"
  by (cases v) auto

lemma preserve_unless_containers:
  assumes "preserve ev nv = Inr nv'"
  shows "if is_container ev \<and> is_container nv then True else nv' = nv"
proof (cases "truthy ev \<and> is_object ev \<and> is_object nv")
  case False
  then show ?thesis using assms typeof_is_object by (auto simp: preserve_def split: if_splits)
next
  case True
  then have p: "(case carry (lit ''details'') ev nv of
                   Inl e \<Rightarrow> Inl e
                 | Inr n1 \<Rightarrow> carry (lit ''nutrients'') ev n1) = Inr nv'"
    using assms typeof_is_object unfolding preserve_def by (auto simp del: list.map)
  consider (both) "is_container ev" "is_container nv"
    | (ev) p where "ev = JProto p" | (nv) pr where "nv = JProto pr"
    using True object_cases by blast
  then show ?thesis
  proof cases
    case both
    then show ?thesis by simp
  next
    case ev
    then show ?thesis using p by (simp add: carry_from_proto del: list.map)
  next
    case nv
    then show ?thesis using p True by (simp add: carry_to_proto del: list.map)
  qed
qed

lemma saved_text:
  assumes nd: "selectedNode s = Some nd"
    and v: "new_value_text s = v"
    and upd: "patch_document (contents s) (node_path nd) (new_value_text s) = Inr updated"
  shows "saved graph s nd v updated (handleSave_text graph s)"
proof -
  have "updated \<noteq> JUndef"
    using upd new_value_text_defined by (rule patch_document_defined)
  then have "JSON_stringify 2 updated = Some (ser (replicate 2 32) [] updated)"
    by (simp add: JSON_stringify_def)
  then have w: "contents (handleSave_text graph s) = ser (replicate 2 32) [] updated"
      "json (handleSave_text graph s) = contents (handleSave_text graph s)"
      "hasChanges (handleSave_text graph s)"
      "nodes (handleSave_text graph s) = graph (contents (handleSave_text graph s))"
      "selectedNode (handleSave_text graph s) =
         (case find (\<lambda>n. findPath (node_path n) = findPath (node_path nd))
                    (nodes (handleSave_text graph s)) of
            None \<Rightarrow> selectedNode s | Some target \<Rightarrow> Some target)"
      "editing (handleSave_text graph s) = False"
    using handleSave_text_writes[OF nd upd, of graph] by (simp_all del: replicate.simps)
  obtain parsed existing v' where st:
      "JSON_parse (contents s) = Inr parsed" "getAtPath parsed (node_path nd) = Inr existing"
      "preserve existing v = Inr v'" "setAtPath parsed (node_path nd) v' = Inr updated"
      "in_document parsed (path_segs (node_path nd)) \<longrightarrow>
         getAtPath updated (node_path nd) = Inr v'"
    using patch_document_steps[OF upd] v by blast
  have "if is_container existing \<and> is_container v then True else v' = v"
    using st(3) by (rule preserve_unless_containers)
  with st have "\<exists>parsed existing v'.
         JSON_parse (contents s) = Inr parsed
         \<and> getAtPath parsed (node_path nd) = Inr existing
         \<and> preserve existing v = Inr v'
         \<and> (if is_container existing \<and> is_container v then True else v' = v)
         \<and> setAtPath parsed (node_path nd) v' = Inr updated
         \<and> (in_document parsed (path_segs (node_path nd)) \<longrightarrow>
              getAtPath updated (node_path nd) = Inr v')"
    by blast
  with w show ?thesis unfolding saved_def by blast
qed

lemma saved_fields:
  assumes nd: "selectedNode s = Some nd"
    and v: "new_value_fields s = v"
    and upd: "patch_document (contents s) (node_path nd) (new_value_fields s) = Inr updated"
  shows "saved graph s nd v updated (handleSave_fields graph s)"
proof -
  have "updated \<noteq> JUndef"
    using upd new_value_fields_defined by (rule patch_document_defined)
  then have "JSON_stringify 2 updated = Some (ser (replicate 2 32) [] updated)"
    by (simp add: JSON_stringify_def)
  then have w: "contents (handleSave_fields graph s) = ser (replicate 2 32) [] updated"
      "json (handleSave_fields graph s) = contents (handleSave_fields graph s)"
      "hasChanges (handleSave_fields graph s)"
      "nodes (handleSave_fields graph s) = graph (contents (handleSave_fields graph s))"
      "selectedNode (handleSave_fields graph s) =
         (case find (\<lambda>n. findPath (node_path n) = findPath (node_path nd))
                    (nodes (handleSave_fields graph s)) of
            None \<Rightarrow> selectedNode s | Some target \<Rightarrow> Some target)"
      "editing (handleSave_fields graph s) = False"
    using handleSave_fields_writes[OF nd upd, of graph] by (simp_all del: replicate.simps)
  obtain parsed existing v' where st:
      "JSON_parse (contents s) = Inr parsed" "getAtPath parsed (node_path nd) = Inr existing"
      "preserve existing v = Inr v'" "setAtPath parsed (node_path nd) v' = Inr updated"
      "in_document parsed (path_segs (node_path nd)) \<longrightarrow>
         getAtPath updated (node_path nd) = Inr v'"
    using patch_document_steps[OF upd] v by blast
  have "if is_container existing \<and> is_container v then True else v' = v"
    using st(3) by (rule preserve_unless_containers)
  with st have "\<exists>parsed existing v'.
         JSON_parse (contents s) = Inr parsed
         \<and> getAtPath parsed (node_path nd) = Inr existing
         \<and> preserve existing v = Inr v'
         \<and> (if is_container existing \<and> is_container v then True else v' = v)
         \<and> setAtPath parsed (node_path nd) v' = Inr updated
         \<and> (in_document parsed (path_segs (node_path nd)) \<longrightarrow>
              getAtPath updated (node_path nd) = Inr v')"
    by blast
  with w show ?thesis unfolding saved_def by blast
qed

text \<open>
  C4, as the code has it. Take a save that completes, with the text typed into the
  text area, or into the single input of the other variant, parsing as the value \<open>v\<close>.
  Then \<open>saved\<close> holds: the value that \<^verbatim>\<open>setAtPath\<close> assigns at the path of the node is
  \<open>v\<close> after the block that keeps \<^verbatim>\<open>details\<close> and \<^verbatim>\<open>nutrients\<close>, and stands there where
  the path leads to a position of the current document; the document is serialized
  with a gap of two spaces, both stores receive the text, and the first node of the refreshed
  graph with the same serialized path, if there is one, is selected.
\<close>

theorem parsed_text_saved:
  "selectedNode s = Some nd \<Longrightarrow>
   (JSON_parse (editedText s) = Inr v
      \<and> patch_document (contents s) (node_path nd) (new_value_text s) = Inr updated \<longrightarrow>
      saved graph s nd v updated (handleSave_text graph s))
   \<and> (editedSingleValue s = Some t \<and> JSON_parse t = Inr v
      \<and> patch_document (contents s) (node_path nd) (new_value_fields s) = Inr updated \<longrightarrow>
      saved graph s nd v updated (handleSave_fields graph s))"
proof (intro conjI impI)
  assume nd: "selectedNode s = Some nd"
  assume a: "JSON_parse (editedText s) = Inr v
      \<and> patch_document (contents s) (node_path nd) (new_value_text s) = Inr updated"
  then have "new_value_text s = v" by (simp add: new_value_text_def parse_or_text_def)
  with nd a show "saved graph s nd v updated (handleSave_text graph s)"
    using saved_text by blast
next
  assume nd: "selectedNode s = Some nd"
  assume a: "editedSingleValue s = Some t \<and> JSON_parse t = Inr v
      \<and> patch_document (contents s) (node_path nd) (new_value_fields s) = Inr updated"
  then have "new_value_fields s = v" by (simp add: new_value_fields_def parse_or_text_def)
  with nd a show "saved graph s nd v updated (handleSave_fields graph s)"
    using saved_fields by blast
qed

text \<open>C4 as amended, on \<open>plain_state\<close>; the second node of the graph is selected.\<close>

theorem parsed_text_saved_witness:
  "selectedNode plain_state = Some fruit_node
   \<and> JSON_parse (editedText plain_state) = Inr pear
   \<and> patch_document (contents plain_state) (node_path fruit_node) (new_value_text plain_state)
       = Inr (JObj [(lit ''fruit'', pear)])
   \<and> saved sample_graph plain_state fruit_node pear (JObj [(lit ''fruit'', pear)])
        (handleSave_text sample_graph plain_state)
   \<and> selectedNode (handleSave_text sample_graph plain_state) = Some (sample_graph [] ! 1)"
proof -
  have h1: "selectedNode plain_state = Some fruit_node" by code_simp
  have h2: "JSON_parse (editedText plain_state) = Inr pear" by code_simp
  have h3: "patch_document (contents plain_state) (node_path fruit_node)
              (new_value_text plain_state) = Inr (JObj [(lit ''fruit'', pear)])" by code_simp
  have h4: "selectedNode (handleSave_text sample_graph plain_state) = Some (sample_graph [] ! 1)"
    by code_simp
  show ?thesis
    using h1 h2 h3 h4
      parsed_text_saved[OF h1, of pear "JObj [(lit ''fruit'', pear)]" sample_graph]
    by (simp del: list.map)
qed

text \<open>
  C4, as the claim has it, fails on \<open>merge_state\<close>: the text typed parses as
  \<open>pear\<close>, and the value saved at the path is \<open>pear\<close> with the \<^verbatim>\<open>details\<close> of the existing
  value added. It fails on \<open>proto_state\<close> too, where the path is the key \<^verbatim>\<open>__proto__\<close>,
  which the document does not own: the save completes, the number typed is given to
  the setter that the document inherits, and the document saved holds it nowhere.
\<close>

theorem parsed_text_saved_counterexample:
  "JSON_parse (editedText merge_state) = Inr pear
   \<and> selectedNode merge_state = Some fruit_node
   \<and> patch_document (contents merge_state) (node_path fruit_node) (new_value_text merge_state)
       = Inr (JObj [(lit ''fruit'', JObj [(lit ''name'', JStr (lit ''Pear'')), (lit ''details'', red)])])
   \<and> JSON_parse (contents (handleSave_text sample_graph merge_state))
       = Inr (JObj [(lit ''fruit'', JObj [(lit ''name'', JStr (lit ''Pear'')), (lit ''details'', red)])])
   \<and> JObj [(lit ''name'', JStr (lit ''Pear'')), (lit ''details'', red)] \<noteq> pear
   \<and> JSON_parse (editedText proto_state) = Inr (JNum 5 0)
   \<and> selectedNode proto_state = Some proto_node
   \<and> patch_document (contents proto_state) (node_path proto_node) (new_value_text proto_state)
       = Inr (JObj [])
   \<and> getAtPath (JObj []) (node_path proto_node) = Inr (JProto ObjectPrototype)
   \<and> contents (handleSave_text sample_graph proto_state) = lit ''{}''"
  by code_simp

subsection \<open>The text that a save writes\<close>

text \<open>
  C5. After every save that completes, in either variant, the text in the file store
  and the text in the JSON store parse as JSON: \<open>JSON_parse\<close> returns a value for
  them, which is \<open>jsonify\<close> of the document \<open>updated\<close>.
\<close>

theorem saved_text_is_json:
  "selectedNode s = Some nd \<Longrightarrow>
   (patch_document (contents s) (node_path nd) (new_value_text s) = Inr updated \<longrightarrow>
      JSON_parse (contents (handleSave_text graph s)) = Inr (jsonify updated)
      \<and> JSON_parse (json (handleSave_text graph s)) = Inr (jsonify updated))
   \<and> (patch_document (contents s) (node_path nd) (new_value_fields s) = Inr updated \<longrightarrow>
      JSON_parse (contents (handleSave_fields graph s)) = Inr (jsonify updated)
      \<and> JSON_parse (json (handleSave_fields graph s)) = Inr (jsonify updated))"
proof (intro conjI impI)
  assume nd: "selectedNode s = Some nd"
    and upd: "patch_document (contents s) (node_path nd) (new_value_text s) = Inr updated"
  have w: "JSON_stringify 2 updated = Some (contents (handleSave_text graph s))"
    "json (handleSave_text graph s) = contents (handleSave_text graph s)"
    using handleSave_text_writes[OF nd upd, of graph] by simp_all
  show "JSON_parse (contents (handleSave_text graph s)) = Inr (jsonify updated)"
    using w(1) by (rule JSON_parse_stringify)
  then show "JSON_parse (json (handleSave_text graph s)) = Inr (jsonify updated)"
    using w(2) by simp
next
  assume nd: "selectedNode s = Some nd"
    and upd: "patch_document (contents s) (node_path nd) (new_value_fields s) = Inr updated"
  have w: "JSON_stringify 2 updated = Some (contents (handleSave_fields graph s))"
    "json (handleSave_fields graph s) = contents (handleSave_fields graph s)"
    using handleSave_fields_writes[OF nd upd, of graph] by simp_all
  show "JSON_parse (contents (handleSave_fields graph s)) = Inr (jsonify updated)"
    using w(1) by (rule JSON_parse_stringify)
  then show "JSON_parse (json (handleSave_fields graph s)) = Inr (jsonify updated)"
    using w(2) by simp
qed

text \<open>C5 on \<open>plain_state\<close>.\<close>

theorem saved_text_is_json_witness:
  "selectedNode plain_state = Some fruit_node
   \<and> patch_document (contents plain_state) (node_path fruit_node) (new_value_text plain_state)
       = Inr (JObj [(lit ''fruit'', pear)])
   \<and> JSON_parse (contents (handleSave_text sample_graph plain_state))
       = Inr (JObj [(lit ''fruit'', pear)])
   \<and> JSON_parse (json (handleSave_text sample_graph plain_state))
       = Inr (JObj [(lit ''fruit'', pear)])"
proof -
  have h1: "selectedNode plain_state = Some fruit_node" by code_simp
  have h2: "patch_document (contents plain_state) (node_path fruit_node)
              (new_value_text plain_state) = Inr (JObj [(lit ''fruit'', pear)])" by code_simp
  have j: "jsonify (JObj [(lit ''fruit'', pear)]) = JObj [(lit ''fruit'', pear)]" by code_simp
  show ?thesis
    using h1 h2 j saved_text_is_json[OF h1, of "JObj [(lit ''fruit'', pear)]" sample_graph]
    by (simp del: list.map)
qed


end
